theory Spec2Isabelle
  imports Complex_Main "HOL-Library.Word" "HOL-Library.Multiset"
begin

section \<open>JavaScript values\<close>

text \<open>
  A JavaScript string is a sequence of UTF-16 code units.  The rupee sign of the amount
  pattern (U+20B9) and the Unicode white space of \<open>\s\<close> lie outside Latin-1, so the text
  handed to the extractor is a list of 16-bit words and not a \<open>char list\<close>.  \<open>lit\<close>
  embeds an ASCII literal of the source.
\<close>

type_synonym codeunit = "16 word"
type_synonym jsstring = "codeunit list"

definition lit :: "string \<Rightarrow> jsstring" where
  "lit s = map of_char s"

text \<open>
  A finite number is a real; the two infinities, \<open>NaN\<close> and \<open>undefined\<close> are
  values of their own, so that a field holding one of them is visibly different from a
  field holding a finite number.  \<open>parseFloat\<close> rounds to binary64 (see below); the
  whole numbers of the simulated OCR step and the sums of the batch metrics are read
  exactly.  The two zeros of binary64 are not told apart.
\<close>

datatype jsvalue = Undefined | NaN | Num real | PosInfinity | NegInfinity | Str jsstring

text \<open>An object is a finite map from property names to values; \<open>{}\<close> is the empty map.\<close>

type_synonym jsobject = "string \<rightharpoonup> jsvalue"

text \<open>
  The interface \<open>ExtractedData\<close> of \<open>types/sustainability\<close>: the property names it
  declares, in declaration order.  All but \<open>billType\<close> are optional.
\<close>

definition ExtractedData_fields :: "string list" where
  "ExtractedData_fields =
     [''energyUsage'', ''waterConsumption'', ''fuelConsumption'', ''wasteGeneration'',
      ''amount'', ''billDate'', ''vendor'', ''billType'']"

section \<open>String primitives\<close>

fun startsWith :: "jsstring \<Rightarrow> jsstring \<Rightarrow> bool" where
  "startsWith s [] = True"
| "startsWith [] (k # ks) = False"
| "startsWith (c # cs) (k # ks) = (c = k \<and> startsWith cs ks)"

text \<open>
  \<open>String.prototype.includes\<close>: the needle occurs at some position of the string
  (\<open>includes\<close> is an Isabelle keyword, hence the suffix).
\<close>

fun includes_str :: "jsstring \<Rightarrow> jsstring \<Rightarrow> bool" where
  "includes_str [] k = startsWith [] k"
| "includes_str (c # cs) k = (startsWith (c # cs) k \<or> includes_str cs k)"

text \<open>
  \<open>String.prototype.toLowerCase\<close>.  The model maps \<open>A\<close>..\<open>Z\<close> to \<open>a\<close>..\<open>z\<close>
  and carries the two code points outside ASCII whose lower case contains an ASCII letter:
  U+0130 becomes \<open>i\<close> followed by U+0307, and the Kelvin sign U+212A becomes \<open>k\<close>.
  Every other code unit is left as it is; JavaScript maps such a unit to code units outside
  ASCII again, which take no part in a comparison with the ASCII keywords below.
\<close>

definition lowerUnit :: "codeunit \<Rightarrow> jsstring" where
  "lowerUnit c =
     (if 0x41 \<le> c \<and> c \<le> 0x5A then [c + 0x20]
      else if c = 0x130 then [0x69, 0x307]
      else if c = 0x212A then [0x6B]
      else [c])"

definition toLowerCase :: "jsstring \<Rightarrow> jsstring" where
  "toLowerCase s = concat (map lowerUnit s)"

section \<open>The simulated OCR step\<close>

text \<open>What the code reads of a \<open>File\<close>: \<open>file.name\<close> and \<open>file.size\<close>.\<close>

record File =
  name :: jsstring
  size_bytes :: nat

text \<open>
  What \<open>processDocument\<close> reads from its environment: the results of its calls of
  \<open>Math.random()\<close>, in call order (the quantity first, the amount second; the default
  branch draws once), and the string \<open>new Date().toISOString()\<close> returns.
\<close>

record Env =
  random1 :: real
  random2 :: real
  isoNow :: jsstring

text \<open>\<open>Math.random()\<close> returns a number in \<open>[0, 1)\<close>.\<close>

definition env_ok :: "Env \<Rightarrow> bool" where
  "env_ok e = (0 \<le> random1 e \<and> random1 e < 1 \<and> 0 \<le> random2 e \<and> random2 e < 1)"

text \<open>\<open>s.split('T')[0]\<close>: the part of \<open>s\<close> before its first \<open>T\<close>.\<close>

definition splitT0 :: "jsstring \<Rightarrow> jsstring" where
  "splitT0 s = takeWhile (\<lambda>c. c \<noteq> 0x54) s"

text \<open>\<open>Math.floor(Math.random() * n) + k\<close>\<close>

definition randomOffset :: "real \<Rightarrow> int \<Rightarrow> int \<Rightarrow> jsvalue" where
  "randomOffset r n k = Num (of_int (\<lfloor>r * of_int n\<rfloor> + k))"

text \<open>
  \<open>OCRProcessor.processDocument\<close>, after its two-second delay.  The file's content is
  never read: the result depends on the lower-cased file name, the random draws and the
  clock only.  \<open>file.size\<close> is read into \<open>fileSize\<close> and not used.
\<close>

definition processDocument :: "File \<Rightarrow> Env \<Rightarrow> jsobject" where
  "processDocument file e =
     (let fileName = toLowerCase (name file);
          fileSize = size_bytes file
      in
      if includes_str fileName (lit ''electricity'') \<or> includes_str fileName (lit ''power'')
         \<or> includes_str fileName (lit ''mseb'') then
        [''billType'' \<mapsto> Str (lit ''electricity''),
         ''energyUsage'' \<mapsto> randomOffset (random1 e) 500 200,
         ''amount'' \<mapsto> randomOffset (random2 e) 5000 2000,
         ''billDate'' \<mapsto> Str (splitT0 (isoNow e)),
         ''vendor'' \<mapsto> Str (lit ''Maharashtra State Electricity Board'')]
      else if includes_str fileName (lit ''water'') \<or> includes_str fileName (lit ''municipal'') then
        [''billType'' \<mapsto> Str (lit ''water''),
         ''waterConsumption'' \<mapsto> randomOffset (random1 e) 10000 5000,
         ''amount'' \<mapsto> randomOffset (random2 e) 1500 500,
         ''billDate'' \<mapsto> Str (splitT0 (isoNow e)),
         ''vendor'' \<mapsto> Str (lit ''Municipal Water Department'')]
      else if includes_str fileName (lit ''fuel'') \<or> includes_str fileName (lit ''petrol'')
         \<or> includes_str fileName (lit ''diesel'') then
        [''billType'' \<mapsto> Str (lit ''fuel''),
         ''fuelConsumption'' \<mapsto> randomOffset (random1 e) 100 50,
         ''amount'' \<mapsto> randomOffset (random2 e) 8000 4000,
         ''billDate'' \<mapsto> Str (splitT0 (isoNow e)),
         ''vendor'' \<mapsto> Str (lit ''Indian Oil Corporation'')]
      else
        [''billType'' \<mapsto> Str (lit ''other''),
         ''amount'' \<mapsto> randomOffset (random1 e) 3000 1000,
         ''billDate'' \<mapsto> Str (splitT0 (isoNow e)),
         ''vendor'' \<mapsto> Str (lit ''Unknown Vendor'')])"

section \<open>Regular expressions\<close>

text \<open>
  The fragment of ECMAScript regular expressions the four patterns of
  \<open>extractKeyFields\<close> are written in: a class of code units, the empty pattern,
  sequence, alternative \<open>|\<close> (left first), greedy \<open>*\<close>, the capturing group \<open>( )\<close>
  (every pattern has exactly one, group 1) and the assertion \<open>\b\<close>.
\<close>

datatype regex =
    Chars "codeunit \<Rightarrow> bool"
  | Eps
  | Seq regex regex
  | Alt regex regex
  | Star regex
  | Group regex
  | WordB

text \<open>\<open>r+\<close>, greedy \<open>r?\<close> and greedy \<open>r{n,m}\<close>.\<close>

definition Plus :: "regex \<Rightarrow> regex" where
  "Plus r = Seq r (Star r)"

definition Opt :: "regex \<Rightarrow> regex" where
  "Opt r = Alt r Eps"

fun Rep :: "nat \<Rightarrow> nat \<Rightarrow> regex \<Rightarrow> regex" where
  "Rep (Suc n) (Suc m) r = Seq r (Rep n m r)"
| "Rep 0 (Suc m) r = Opt (Seq r (Rep 0 m r))"
| "Rep n 0 r = Eps"

text \<open>\<open>\d\<close> is \<open>0\<close>..\<open>9\<close>; \<open>\s\<close> is the white space and the line terminators of
  ECMAScript; a word character (for \<open>\b\<close>) is a letter, a digit or \<open>_\<close>.\<close>

definition isDigit :: "codeunit \<Rightarrow> bool" where
  "isDigit c = (0x30 \<le> c \<and> c \<le> 0x39)"

definition isSpace :: "codeunit \<Rightarrow> bool" where
  "isSpace c =
     (c = 0x09 \<or> c = 0x0A \<or> c = 0x0B \<or> c = 0x0C \<or> c = 0x0D \<or> c = 0x20 \<or> c = 0xA0
      \<or> c = 0x1680 \<or> (0x2000 \<le> c \<and> c \<le> 0x200A) \<or> c = 0x2028 \<or> c = 0x2029
      \<or> c = 0x202F \<or> c = 0x205F \<or> c = 0x3000 \<or> c = 0xFEFF)"

definition isWordChar :: "codeunit \<Rightarrow> bool" where
  "isWordChar c =
     ((0x61 \<le> c \<and> c \<le> 0x7A) \<or> (0x41 \<le> c \<and> c \<le> 0x5A) \<or> isDigit c \<or> c = 0x5F)"

text \<open>
  The flag \<open>i\<close> compares code units after \<open>Canonicalize\<close>, which upper-cases a unit
  unless that would turn a unit outside ASCII into an ASCII one.  The characters written in
  the patterns are ASCII letters, \<open>.\<close> and the rupee sign, so only the ASCII part of the
  mapping decides a comparison; units outside ASCII are left as they are.
\<close>

definition canonicalize :: "codeunit \<Rightarrow> codeunit" where
  "canonicalize c = (if 0x61 \<le> c \<and> c \<le> 0x7A then c - 0x20 else c)"

definition digit :: regex where
  "digit = Chars isDigit"

definition space :: regex where
  "space = Chars isSpace"

text \<open>One pattern character, and a literal, under the flag \<open>i\<close>.\<close>

definition chr_i :: "codeunit \<Rightarrow> regex" where
  "chr_i k = Chars (\<lambda>c. canonicalize c = canonicalize k)"

definition lit_i :: "string \<Rightarrow> regex" where
  "lit_i s = foldr (\<lambda>k r. Seq (chr_i (of_char k)) r) s Eps"

text \<open>
  The matcher lists the ways a pattern matches at the current position, in the order in
  which a backtracking matcher tries them.  A state is the code unit before the position
  (none at the start of the text), the text from the position on, and group 1 (none while
  the group has not taken part).  A round of \<open>*\<close> that consumes nothing is given up, as
  ECMAScript does.
\<close>

type_synonym mstate = "codeunit option \<times> jsstring \<times> jsstring option"

fun matches :: "regex \<Rightarrow> mstate \<Rightarrow> mstate list" where
  "matches (Chars p) (pv, s, g) =
     (case s of [] \<Rightarrow> [] | x # xs \<Rightarrow> if p x then [(Some x, xs, g)] else [])"
| "matches Eps st = [st]"
| "matches (Seq r1 r2) st = concat (map (matches r2) (matches r1 st))"
| "matches (Alt r1 r2) st = matches r1 st @ matches r2 st"
| "matches (Star r) st =
     concat (map (\<lambda>st'. if length (fst (snd st')) < length (fst (snd st))
                          then matches (Star r) st' else [])
                 (matches r st)) @ [st]"
| "matches (Group r) (pv, s, g) =
     map (\<lambda>(pv', s', g'). (pv', s', Some (take (length s - length s') s)))
         (matches r (pv, s, g))"
| "matches WordB (pv, s, g) =
     (let a = (case pv of None \<Rightarrow> False | Some c \<Rightarrow> isWordChar c);
          b = (case s of [] \<Rightarrow> False | c # _ \<Rightarrow> isWordChar c)
      in if a \<noteq> b then [(pv, s, g)] else [])"

text \<open>
  \<open>text.match(pattern)\<close> for a pattern without the flag \<open>g\<close>: the first match at the
  leftmost position that has one, or \<open>null\<close>.  The model returns element 1 of the match
  array, group 1, which is \<open>undefined\<close> when the group took no part.
\<close>

fun search :: "regex \<Rightarrow> codeunit option \<Rightarrow> jsstring \<Rightarrow> jsvalue option" where
  "search r pv s =
     (case matches r (pv, s, None) of
        (pv', s', g) # _ \<Rightarrow> Some (case g of None \<Rightarrow> Undefined | Some w \<Rightarrow> Str w)
      | [] \<Rightarrow> (case s of [] \<Rightarrow> None | x # xs \<Rightarrow> search r (Some x) xs))"

definition match1 :: "jsstring \<Rightarrow> regex \<Rightarrow> jsvalue option" where
  "match1 text r = search r None text"

section \<open>parseFloat\<close>

definition digitVal :: "codeunit \<Rightarrow> nat" where
  "digitVal c = unat c - 48"

definition natVal :: "jsstring \<Rightarrow> nat" where
  "natVal ds = foldl (\<lambda>a d. 10 * a + digitVal d) 0 ds"

text \<open>The exponent part at the head of \<open>s\<close>: \<open>e\<close> or \<open>E\<close>, a sign or none, digits; 0 without one.\<close>

definition exponentPart :: "jsstring \<Rightarrow> int" where
  "exponentPart s =
     (case s of
        [] \<Rightarrow> 0
      | c # cs \<Rightarrow>
          if c = 0x65 \<or> c = 0x45 then
            (case cs of
               [] \<Rightarrow> 0
             | d # ds \<Rightarrow>
                 if d = 0x2D then (if takeWhile isDigit ds = [] then 0
                                   else - int (natVal (takeWhile isDigit ds)))
                 else if d = 0x2B then int (natVal (takeWhile isDigit ds))
                 else int (natVal (takeWhile isDigit cs)))
          else 0)"

text \<open>
  The Number value of a real: the binary64 number nearest to it, a tie going to the even
  significand (IEEE 754 \<open>roundTiesToEven\<close>), and infinity from \<open>2 ^ 1024\<close> on.  The
  binary64 numbers next to a positive \<open>x\<close> are the multiples of
  \<open>2 ^ (e - 52)\<close>, where \<open>e\<close> is the exponent of \<open>x\<close>, not below \<open>-1022\<close>
  (the subnormal range).
\<close>

definition roundTiesToEven :: "real \<Rightarrow> int" where
  "roundTiesToEven q =
     (let n = \<lfloor>q\<rfloor>; d = q - of_int n
      in if d < 1 / 2 then n else if 1 / 2 < d then n + 1 else if even n then n else n + 1)"

definition negateNumber :: "jsvalue \<Rightarrow> jsvalue" where
  "negateNumber v =
     (case v of Num x \<Rightarrow> Num (- x) | PosInfinity \<Rightarrow> NegInfinity
              | NegInfinity \<Rightarrow> PosInfinity | _ \<Rightarrow> v)"

definition roundBinary64 :: "real \<Rightarrow> jsvalue" where
  "roundBinary64 x =
     (let u = 2 powi (max \<lfloor>log 2 x\<rfloor> (- 1022) - 52);
          y = of_int (roundTiesToEven (x / u)) * u
      in if 2 ^ 1024 \<le> y then PosInfinity else Num y)"

definition numberValue :: "real \<Rightarrow> jsvalue" where
  "numberValue x =
     (if x = 0 then Num 0 else if 0 < x then roundBinary64 x
      else negateNumber (roundBinary64 (- x)))"

text \<open>
  \<open>parseFloat\<close> of a string: leading white space is skipped, then the longest prefix that
  is a decimal literal (sign, \<open>Infinity\<close> or integer digits, fraction, exponent) is read
  and its mathematical value is rounded to binary64; \<open>NaN\<close> when there is none.
\<close>

definition parseFloat :: "jsstring \<Rightarrow> jsvalue" where
  "parseFloat s =
     (let s1 = dropWhile isSpace s;
          neg = (s1 \<noteq> [] \<and> hd s1 = 0x2D);
          s2 = (if s1 \<noteq> [] \<and> (hd s1 = 0x2D \<or> hd s1 = 0x2B) then tl s1 else s1);
          ip = takeWhile isDigit s2;
          s3 = dropWhile isDigit s2;
          dot = (s3 \<noteq> [] \<and> hd s3 = 0x2E);
          fp = (if dot then takeWhile isDigit (tl s3) else []);
          s4 = (if dot then dropWhile isDigit (tl s3) else s3)
      in if startsWith s2 (lit ''Infinity'') then (if neg then NegInfinity else PosInfinity)
         else if ip = [] \<and> fp = [] then NaN
         else
           let m = real (natVal ip) + real (natVal fp) / 10 ^ length fp;
               ex = exponentPart s4;
               v = (if 0 \<le> ex then m * 10 ^ nat ex else m / 10 ^ nat (- ex))
           in if neg then negateNumber (numberValue v) else numberValue v)"

section \<open>Field extraction\<close>

definition energy_pattern :: regex where
  "energy_pattern =
     Seq (Group (Seq (Plus digit) (Opt (Seq (chr_i 0x2E) (Plus digit)))))
      (Seq (Star space)
        (Alt (lit_i ''kwh'') (Alt (lit_i ''kw'') (Seq (lit_i ''unit'') (Opt (chr_i 0x73))))))"

definition water_pattern :: regex where
  "water_pattern =
     Seq (Group (Seq (Plus digit) (Opt (Seq (chr_i 0x2E) (Plus digit)))))
      (Seq (Star space)
        (Alt (Seq (lit_i ''litre'') (Opt (chr_i 0x73)))
          (Alt (Seq (lit_i ''liter'') (Opt (chr_i 0x73)))
               (Seq (chr_i 0x6C) WordB))))"

definition amount_pattern :: regex where
  "amount_pattern =
     Seq (Alt (chr_i 0x20B9) (Alt (Seq (lit_i ''rs'') (Opt (chr_i 0x2E))) (lit_i ''inr'')))
      (Seq (Star space)
        (Group (Seq (Plus digit)
                 (Seq (Star (Seq (chr_i 0x2C) (Plus digit)))
                      (Opt (Seq (chr_i 0x2E) (Plus digit)))))))"

definition date_sep :: regex where
  "date_sep = Chars (\<lambda>c. c = 0x2F \<or> c = 0x2D)"

definition date_pattern :: regex where
  "date_pattern =
     Group (Seq (Rep 1 2 digit) (Seq date_sep (Seq (Rep 1 2 digit)
             (Seq date_sep (Rep 2 4 digit)))))"

datatype error = TypeError

text \<open>\<open>parseFloat(m[1])\<close>: an argument that is not a string is converted to one first, and
  \<open>"undefined"\<close> does not parse.\<close>

definition parseFloatArg :: "jsvalue \<Rightarrow> jsvalue" where
  "parseFloatArg v = (case v of Str s \<Rightarrow> parseFloat s | _ \<Rightarrow> NaN)"

text \<open>\<open>m[1].replace(/,/g, '')\<close>: a method call on \<open>undefined\<close> throws.\<close>

definition replaceCommas :: "jsvalue \<Rightarrow> error + jsvalue" where
  "replaceCommas v =
     (case v of Str s \<Rightarrow> Inr (Str (filter (\<lambda>c. c \<noteq> 0x2C) s)) | _ \<Rightarrow> Inl TypeError)"

text \<open>
  \<open>OCRProcessor.extractKeyFields\<close>: the four patterns are tried in the order energy,
  water, amount, date, each adding its property when it matches.
\<close>

definition extractKeyFields :: "jsstring \<Rightarrow> error + jsobject" where
  "extractKeyFields text =
     (let extracted = Map.empty;
          extracted = (case match1 text energy_pattern of
                         None \<Rightarrow> extracted
                       | Some g \<Rightarrow> extracted(''energyUsage'' \<mapsto> parseFloatArg g));
          extracted = (case match1 text water_pattern of
                         None \<Rightarrow> extracted
                       | Some g \<Rightarrow> extracted(''waterConsumption'' \<mapsto> parseFloatArg g))
      in case (case match1 text amount_pattern of
                 None \<Rightarrow> Inr extracted
               | Some g \<Rightarrow>
                   (case replaceCommas g of
                      Inl err \<Rightarrow> Inl err
                    | Inr s \<Rightarrow> Inr (extracted(''amount'' \<mapsto> parseFloatArg s)))) of
           Inl err \<Rightarrow> Inl err
         | Inr extracted \<Rightarrow>
             Inr (case match1 text date_pattern of
                    None \<Rightarrow> extracted
                  | Some g \<Rightarrow> extracted(''billDate'' \<mapsto> g)))"

section \<open>Batch metrics\<close>

record Trends =
  carbon :: "real list"
  energy :: "real list"
  water :: "real list"
  waste :: "real list"

record SustainabilityMetrics =
  carbonFootprint :: real
  energyUsage :: real
  waterConsumption :: real
  wasteGeneration :: real
  esgScore :: real
  trends :: Trends

text \<open>The argument object of \<open>EmissionCalculator.calculateESGScore\<close>.\<close>

record ESGInput =
  carbonIntensity :: real
  energyEfficiency :: real
  waterEfficiency :: real
  wasteReduction :: real

text \<open>
  \<open>item.f || 0\<close> for a property typed \<open>number | undefined\<close>: the number when the
  property is present, 0 when it is absent (and for the falsy numbers 0 and \<open>NaN\<close>).
  The items of \<open>processedData\<close> are the documents returned by \<open>processDocument\<close>,
  whose numbers are finite whole numbers, and the sums are taken over the reals; an
  infinite quantity does not occur there and is not a summand.
\<close>

definition orZero :: "jsvalue option \<Rightarrow> real" where
  "orZero v = (case v of Some (Num x) \<Rightarrow> x | _ \<Rightarrow> 0)"

text \<open>\<open>processedData.reduce((sum, item) => sum + (item.f || 0), 0)\<close>\<close>

definition reduceSum :: "string \<Rightarrow> jsobject list \<Rightarrow> real" where
  "reduceSum f processedData = foldl (\<lambda>sum item. sum + orZero (item f)) 0 processedData"

text \<open>
  The metrics that \<open>handleFileUpload\<close> computes from \<open>processedData\<close> and hands to
  \<open>setAnalysisData\<close>.  The module \<open>utils/emissionCalculator\<close> is not part of the
  sources, so its two functions are parameters.
\<close>

definition handleFileUpload_metrics ::
  "(jsobject list \<Rightarrow> real) \<Rightarrow> (ESGInput \<Rightarrow> real) \<Rightarrow> jsobject list \<Rightarrow> SustainabilityMetrics" where
  "handleFileUpload_metrics calculateCarbonFootprint calculateESGScore processedData =
     (let carbonFootprint = calculateCarbonFootprint processedData;
          energyUsage = reduceSum ''energyUsage'' processedData;
          waterConsumption = reduceSum ''waterConsumption'' processedData;
          wasteGeneration = reduceSum ''wasteGeneration'' processedData;
          esgScore = calculateESGScore
            \<lparr> carbonIntensity = carbonFootprint,
              energyEfficiency = max 0 (100 - energyUsage / 1000),
              waterEfficiency = max 0 (100 - waterConsumption / 10000),
              wasteReduction = max 0 (100 - wasteGeneration) \<rparr>
      in \<lparr> carbonFootprint = 2.4,
           energyUsage = 1250,
           waterConsumption = 850,
           wasteGeneration = 45,
           esgScore = esgScore,
           trends = \<lparr> carbon = [2.1, 2.3, 2.4, 2.2, 2.4],
                      energy = [1180, 1200, 1250, 1220, 1250],
                      water = [800, 820, 850, 830, 850],
                      waste = [42, 44, 45, 43, 45] \<rparr> \<rparr>)"

section \<open>The emission calculator and the ESG scorer\<close>

text \<open>
  Modelled from the spec: the module \<open>utils/emissionCalculator\<close>
  (\<open>EmissionCalculator.calculateESGScore\<close>) is imported by the application and is not
  among the sources.  The scorer is the weighted average of its four inputs, each clamped
  to \<open>[0, 100]\<close> before weighting; the weights are fixed, non-negative and sum to 1.  The
  spec gives no numbers for them, so they are a configuration value.
\<close>

record ESGWeights =
  w_carbon :: real
  w_energy :: real
  w_water :: real
  w_waste :: real

definition weights_ok :: "ESGWeights \<Rightarrow> bool" where
  "weights_ok w =
     (0 \<le> w_carbon w \<and> 0 \<le> w_energy w \<and> 0 \<le> w_water w \<and> 0 \<le> w_waste w
      \<and> w_carbon w + w_energy w + w_water w + w_waste w = 1)"

definition clamp100 :: "real \<Rightarrow> real" where
  "clamp100 x = max 0 (min 100 x)"

definition calculateESGScore :: "ESGWeights \<Rightarrow> ESGInput \<Rightarrow> real" where
  "calculateESGScore w i =
     w_carbon w * clamp100 (carbonIntensity i) + w_energy w * clamp100 (energyEfficiency i)
     + w_water w * clamp100 (waterEfficiency i) + w_waste w * clamp100 (wasteReduction i)"

text \<open>
  Modelled from the spec: the emission calculator of the same absent module.  A document
  contributes, for the quantity field of its own category, the quantity times the
  category's factor; the contribution is added to \<open>breakdown[category]\<close> and to the
  running total.  A document of type \<open>other\<close>, and one whose quantity is absent,
  contributes nothing, and a category without contribution has no entry in the breakdown.
  A batch holding a negative quantity is rejected as a whole.  The factor table is
  injected configuration.  Quantities are finite numbers; a quantity that is not one is
  treated as absent.
\<close>

definition quantityField :: "(jsstring \<times> string) list" where
  "quantityField =
     [(lit ''electricity'', ''energyUsage''), (lit ''water'', ''waterConsumption''),
      (lit ''fuel'', ''fuelConsumption''), (lit ''waste'', ''wasteGeneration'')]"

definition contribution :: "(jsstring \<Rightarrow> real) \<Rightarrow> jsobject \<Rightarrow> (jsstring \<times> real) option" where
  "contribution factor doc =
     (case doc ''billType'' of
        Some (Str t) \<Rightarrow>
          (case map_of quantityField t of
             Some f \<Rightarrow> (case doc f of Some (Num q) \<Rightarrow> Some (t, q * factor t) | _ \<Rightarrow> None)
           | None \<Rightarrow> None)
      | _ \<Rightarrow> None)"

definition negativeQuantity :: "jsobject \<Rightarrow> bool" where
  "negativeQuantity doc =
     list_ex (\<lambda>f. case doc f of Some (Num q) \<Rightarrow> q < 0 | _ \<Rightarrow> False) (map snd quantityField)"

record EmissionResult =
  totalEmissions :: real
  breakdown :: "jsstring \<rightharpoonup> real"

definition accumulate :: "(jsstring \<Rightarrow> real) \<Rightarrow> EmissionResult \<Rightarrow> jsobject \<Rightarrow> EmissionResult" where
  "accumulate factor acc doc =
     (case contribution factor doc of
        None \<Rightarrow> acc
      | Some (t, e) \<Rightarrow>
          \<lparr> totalEmissions = totalEmissions acc + e,
            breakdown = (breakdown acc)
              (t \<mapsto> (case breakdown acc t of None \<Rightarrow> e | Some x \<Rightarrow> x + e)) \<rparr>)"

datatype calc_error = ValidationError

definition calculateEmissions ::
  "(jsstring \<Rightarrow> real) \<Rightarrow> jsobject list \<Rightarrow> calc_error + EmissionResult" where
  "calculateEmissions factor docs =
     (if list_ex negativeQuantity docs then Inl ValidationError
      else Inr (foldl (accumulate factor) \<lparr> totalEmissions = 0, breakdown = Map.empty \<rparr> docs))"

text \<open>The factor table of the README, in kg CO2 per unit; a fuel receipt is taken as petrol.\<close>

definition readmeFactor :: "jsstring \<Rightarrow> real" where
  "readmeFactor t =
     (if t = lit ''electricity'' then 0.82 else if t = lit ''water'' then 0.0003
      else if t = lit ''fuel'' then 2.31 else if t = lit ''waste'' then 0.5 else 0)"

section \<open>Notions used in the statements\<close>

text \<open>The keywords \<open>processDocument\<close> looks for in the lower-cased file name, in the
  order of its tests.\<close>

definition classification_keywords :: "string list" where
  "classification_keywords =
     [''electricity'', ''power'', ''mseb'', ''water'', ''municipal'',
      ''fuel'', ''petrol'', ''diesel'']"

text \<open>
  The strings a pattern can match, read without priorities: the declarative meaning of
  the pattern syntax.  The assertion \<open>\b\<close> consumes nothing; its dependence on the
  context is not part of this reading, which is therefore exact only for patterns
  without it (\<open>no_wordb\<close>).
\<close>

fun lang :: "regex \<Rightarrow> jsstring set" where
  "lang (Chars p) = {[c] | c. p c}"
| "lang Eps = {[]}"
| "lang (Seq a b) = {u @ v | u v. u \<in> lang a \<and> v \<in> lang b}"
| "lang (Alt a b) = lang a \<union> lang b"
| "lang (Star a) = {concat ws | ws. set ws \<subseteq> lang a}"
| "lang (Group a) = lang a"
| "lang WordB = {[]}"

fun no_wordb :: "regex \<Rightarrow> bool" where
  "no_wordb (Seq a b) = (no_wordb a \<and> no_wordb b)"
| "no_wordb (Alt a b) = (no_wordb a \<and> no_wordb b)"
| "no_wordb (Star a) = no_wordb a"
| "no_wordb (Group a) = no_wordb a"
| "no_wordb WordB = False"
| "no_wordb r = True"

fun group_free :: "regex \<Rightarrow> bool" where
  "group_free (Seq a b) = (group_free a \<and> group_free b)"
| "group_free (Alt a b) = (group_free a \<and> group_free b)"
| "group_free (Star a) = group_free a"
| "group_free (Group a) = False"
| "group_free r = True"

text \<open>What one document adds to the total, and to the breakdown entry of a category.\<close>

definition amountOf :: "(jsstring \<Rightarrow> real) \<Rightarrow> jsobject \<Rightarrow> real" where
  "amountOf factor doc = (case contribution factor doc of None \<Rightarrow> 0 | Some (t, e) \<Rightarrow> e)"

definition amountTo :: "(jsstring \<Rightarrow> real) \<Rightarrow> jsstring \<Rightarrow> jsobject \<Rightarrow> real" where
  "amountTo factor t doc =
     (case contribution factor doc of None \<Rightarrow> 0 | Some (t', e) \<Rightarrow> if t' = t then e else 0)"

definition contributesTo :: "(jsstring \<Rightarrow> real) \<Rightarrow> jsstring \<Rightarrow> jsobject \<Rightarrow> bool" where
  "contributesTo factor t doc =
     (case contribution factor doc of None \<Rightarrow> False | Some (t', e) \<Rightarrow> t' = t)"

text \<open>
  The code unit before the position reached after the prefix \<open>pre\<close>, for a search
  that began with \<open>pv\<close> before it; and element 1 of the match array of a final state.
\<close>

definition prevAt :: "codeunit option \<Rightarrow> jsstring \<Rightarrow> codeunit option" where
  "prevAt pv pre = (if pre = [] then pv else Some (last pre))"

definition group1 :: "mstate \<Rightarrow> jsvalue" where
  "group1 m = (case snd (snd m) of None \<Rightarrow> Undefined | Some w \<Rightarrow> Str w)"

text \<open>The object \<open>extractKeyFields\<close> builds, property by property.\<close>

definition extracted_of :: "jsstring \<Rightarrow> jsobject" where
  "extracted_of text =
     (\<lambda>k. if k = ''energyUsage'' then map_option parseFloatArg (match1 text energy_pattern)
          else if k = ''waterConsumption'' then map_option parseFloatArg (match1 text water_pattern)
          else if k = ''amount'' then
            (case match1 text amount_pattern of
               Some (Str w) \<Rightarrow> Some (parseFloat (filter (\<lambda>c. c \<noteq> 0x2C) w))
             | _ \<Rightarrow> None)
          else if k = ''billDate'' then match1 text date_pattern
          else None)"

text \<open>
  The binary64 numbers: a significand of at most 53 bits times a power of two within the
  exponent range.  On them the rounding of \<open>numberValue\<close> changes nothing.
\<close>

definition is_binary64 :: "real \<Rightarrow> bool" where
  "is_binary64 x =
     (\<exists>m e. x = of_int m * 2 powi e \<and> \<bar>m\<bar> < 2 ^ 53 \<and> - 1074 \<le> e \<and> e \<le> 971)"

subsection \<open>Numbers followed by a unit\<close>

text \<open>
  The words of the extraction rules.  A number is a non-empty run of digits, optionally
  followed by a decimal point and another non-empty run of digits; its value reads the
  point as the fractional separator.
\<close>

definition is_digits :: "jsstring \<Rightarrow> bool" where
  "is_digits ds = (ds \<noteq> [] \<and> list_all isDigit ds)"

definition is_number :: "jsstring \<Rightarrow> bool" where
  "is_number w = (is_digits w \<or> (\<exists>ip fp. is_digits ip \<and> is_digits fp \<and> w = ip @ 0x2E # fp))"

definition decimal_value :: "jsstring \<Rightarrow> real" where
  "decimal_value w =
     (let ip = takeWhile (\<lambda>c. c \<noteq> 0x2E) w; fp = drop (Suc (length ip)) w
      in real (natVal ip) + real (natVal fp) / 10 ^ length fp)"

text \<open>A string is a keyword up to the case of its ASCII letters.\<close>

definition same_ignoring_case :: "jsstring \<Rightarrow> string \<Rightarrow> bool" where
  "same_ignoring_case u k = (map canonicalize u = map canonicalize (lit k))"

definition is_energy_unit :: "jsstring \<Rightarrow> bool" where
  "is_energy_unit u =
     (same_ignoring_case u ''kwh'' \<or> same_ignoring_case u ''kw''
      \<or> same_ignoring_case u ''unit'' \<or> same_ignoring_case u ''units'')"

text \<open>
  At index \<open>i\<close> the text holds the number \<open>num\<close>, then white space or none, then a
  unit token.  The first such match is the one with the least index.
\<close>

definition energy_match_at :: "jsstring \<Rightarrow> nat \<Rightarrow> jsstring \<Rightarrow> bool" where
  "energy_match_at text i num =
     (i \<le> length text \<and>
      (\<exists>ws u post. drop i text = num @ ws @ u @ post
         \<and> is_number num \<and> list_all isSpace ws \<and> is_energy_unit u))"

definition first_energy_match :: "jsstring \<Rightarrow> nat \<Rightarrow> jsstring \<Rightarrow> bool" where
  "first_energy_match text i num =
     (energy_match_at text i num \<and> (\<forall>j num'. energy_match_at text j num' \<longrightarrow> i \<le> j))"

definition energy_text :: jsstring where
  "energy_text = lit ''Used 12 units, 245.5 kWh''"

subsection \<open>Amounts after a currency marker\<close>

text \<open>
  A currency marker is the rupee sign, \<open>Rs\<close>, \<open>Rs.\<close> or \<open>INR\<close> in any letter case.
  A number with comma grouping is a run of digits, any number of groups made of a comma
  and a run of digits, and optionally a decimal point with a run of digits.
\<close>

definition is_currency_marker :: "jsstring \<Rightarrow> bool" where
  "is_currency_marker m =
     (m = [0x20B9] \<or> same_ignoring_case m ''rs'' \<or> same_ignoring_case m ''rs.''
      \<or> same_ignoring_case m ''inr'')"

definition is_grouped_number :: "jsstring \<Rightarrow> bool" where
  "is_grouped_number w =
     (\<exists>g gs f. is_digits g \<and> list_all is_digits gs
        \<and> (f = [] \<or> (\<exists>fp. is_digits fp \<and> f = 0x2E # fp))
        \<and> w = g @ concat (map ((#) 0x2C) gs) @ f)"

text \<open>
  At index \<open>i\<close> the text holds a currency marker, then white space or none, then the
  number \<open>num\<close>.  The first match is the one with the least index and, at that index,
  the longest number.
\<close>

definition amount_match_at :: "jsstring \<Rightarrow> nat \<Rightarrow> jsstring \<Rightarrow> bool" where
  "amount_match_at text i num =
     (i \<le> length text \<and>
      (\<exists>m ws post. drop i text = m @ ws @ num @ post
         \<and> is_currency_marker m \<and> list_all isSpace ws \<and> is_grouped_number num))"

definition first_amount_match :: "jsstring \<Rightarrow> nat \<Rightarrow> jsstring \<Rightarrow> bool" where
  "first_amount_match text i num =
     (amount_match_at text i num
      \<and> (\<forall>j num'. amount_match_at text j num' \<longrightarrow> i \<le> j)
      \<and> (\<forall>num'. amount_match_at text i num' \<longrightarrow> length num' \<le> length num))"

text \<open>
  What is left of a string after the greedy reading of one group (the separator \<open>k\<close>
  and a run of digits), of all comma groups, and of an optional fraction.
\<close>

definition skipGroup :: "codeunit \<Rightarrow> jsstring \<Rightarrow> jsstring option" where
  "skipGroup k s =
     (case s of
        c # d # t \<Rightarrow> if c = k \<and> isDigit d then Some (dropWhile isDigit t) else None
      | _ \<Rightarrow> None)"

function skipGroups :: "jsstring \<Rightarrow> jsstring" where
  "skipGroups s = (case skipGroup 0x2C s of None \<Rightarrow> s | Some s' \<Rightarrow> skipGroups s')"
  by pat_completeness auto
termination
  by (relation "measure length")
     (auto simp: skipGroup_def less_Suc_eq_le le_SucI length_dropWhile_le
           split: list.splits if_splits)

definition skipFrac :: "jsstring \<Rightarrow> jsstring" where
  "skipFrac s = (case skipGroup 0x2E s of None \<Rightarrow> s | Some s' \<Rightarrow> s')"

definition amount_text :: jsstring where
  "amount_text = lit ''Total: Rs. 3,250.50 paid, INR 99''"

subsection \<open>Concrete inputs\<close>

definition scan_file :: File where
  "scan_file = \<lparr> name = lit ''scan.jpg'', size_bytes = 1024 \<rparr>"

definition mseb_file :: File where
  "mseb_file = \<lparr> name = lit ''mseb_bill.jpg'', size_bytes = 2048 \<rparr>"

definition sample_env :: Env where
  "sample_env = \<lparr> random1 = 1 / 2, random2 = 1 / 4, isoNow = lit ''2024-11-15T10:00:00.000Z'' \<rparr>"

definition electricity_doc :: jsobject where
  "electricity_doc = [''billType'' \<mapsto> Str (lit ''electricity''), ''energyUsage'' \<mapsto> Num 245.5]"

definition water_doc :: jsobject where
  "water_doc = [''billType'' \<mapsto> Str (lit ''water''), ''waterConsumption'' \<mapsto> Num 8000]"

definition sample_weights :: ESGWeights where
  "sample_weights = \<lparr> w_carbon = 0.4, w_energy = 0.2, w_water = 0.2, w_waste = 0.2 \<rparr>"

definition sample_input :: ESGInput where
  "sample_input = \<lparr> carbonIntensity = 2.4, energyEfficiency = 98.75,
                      waterEfficiency = 250, wasteReduction = -5 \<rparr>"

section \<open>Evaluation rules\<close>

lemma lit_simps: "lit [] = []" "lit (c # cs) = of_char c # lit cs"
  by (simp_all add: lit_def)

lemmas processDocument_eval =
  processDocument_def Let_def toLowerCase_def lowerUnit_def lit_simps randomOffset_def
  splitT0_def env_ok_def classification_keywords_def

section \<open>The simulated OCR step: results\<close>

lemma processDocument_dom: "dom (processDocument file e) \<subseteq> set ExtractedData_fields"
  by (simp add: processDocument_def Let_def ExtractedData_fields_def)

lemma randomOffset_range:
  assumes "0 \<le> r" "r < 1" "0 < n"
  shows "\<exists>i. randomOffset r n k = Num (of_int i) \<and> k \<le> i \<and> i < k + n"
proof -
  have "0 \<le> r * of_int n" using assms by simp
  hence a: "0 \<le> \<lfloor>r * of_int n\<rfloor>" by simp
  have "r * of_int n < of_int n" using assms by simp
  hence b: "\<lfloor>r * of_int n\<rfloor> < n" by (simp add: floor_less_iff)
  show ?thesis unfolding randomOffset_def using a b
    by (intro exI[of _ "\<lfloor>r * of_int n\<rfloor> + k"]) simp
qed

text \<open>
  C1 (as stated, refuted).  The claim asks for a \<open>confidence\<close> property with a value in
  \<open>[0, 1]\<close> on every document \<open>processDocument\<close> returns.  For the file \<open>scan.jpg\<close>
  the returned object has no such property.
\<close>

theorem processDocument_confidence_counterexample:
  "\<not> (\<exists>c. processDocument scan_file sample_env ''confidence'' = Some (Num c) \<and> 0 \<le> c \<and> c \<le> 1)"
  by (simp add: scan_file_def sample_env_def processDocument_eval)

text \<open>
  C1 (amended).  \<open>ExtractedData\<close> declares no \<open>confidence\<close> field, and for every file,
  every random draw and every clock the object \<open>processDocument\<close> returns has only
  properties the interface declares; in particular it has no \<open>confidence\<close> property.
\<close>

theorem processDocument_has_no_confidence:
  "''confidence'' \<notin> set ExtractedData_fields
   \<and> dom (processDocument file e) \<subseteq> set ExtractedData_fields
   \<and> processDocument file e ''confidence'' = None"
proof -
  have a: "''confidence'' \<notin> set ExtractedData_fields" by (simp add: ExtractedData_fields_def)
  have b: "dom (processDocument file e) \<subseteq> set ExtractedData_fields" by (rule processDocument_dom)
  from a b have "''confidence'' \<notin> dom (processDocument file e)" by blast
  hence "processDocument file e ''confidence'' = None" by (simp add: domIff)
  with a b show ?thesis by simp
qed

text \<open>
  C2 (as stated, refuted).  The file name \<open>scan.jpg\<close> contains none of the keywords, and
  the document returned for it has a vendor, an amount and a bill date: the optional
  fields are not all absent.
\<close>

theorem processDocument_default_counterexample:
  "list_all (\<lambda>k. \<not> includes_str (toLowerCase (name scan_file)) (lit k)) classification_keywords
   \<and> \<not> (processDocument scan_file sample_env ''amount'' = None
         \<and> processDocument scan_file sample_env ''billDate'' = None
         \<and> processDocument scan_file sample_env ''vendor'' = None)"
  by (simp add: scan_file_def sample_env_def processDocument_eval)

text \<open>
  C2 (amended).  When the lower-cased file name contains none of the keywords,
  \<open>processDocument\<close> returns (it has no failing path) a document with \<open>billType\<close>
  \<open>other\<close> in which the four quantity fields are absent, while \<open>vendor\<close> is
  \<open>Unknown Vendor\<close>, \<open>billDate\<close> is the date part of the clock and \<open>amount\<close> is a
  whole number from 1000 to 3999.
\<close>

theorem processDocument_default:
  assumes "list_all (\<lambda>k. \<not> includes_str (toLowerCase (name file)) (lit k)) classification_keywords"
    and "env_ok e"
  shows "processDocument file e ''billType'' = Some (Str (lit ''other''))
    \<and> processDocument file e ''energyUsage'' = None
    \<and> processDocument file e ''waterConsumption'' = None
    \<and> processDocument file e ''fuelConsumption'' = None
    \<and> processDocument file e ''wasteGeneration'' = None
    \<and> processDocument file e ''vendor'' = Some (Str (lit ''Unknown Vendor''))
    \<and> processDocument file e ''billDate'' = Some (Str (splitT0 (isoNow e)))
    \<and> (\<exists>n. processDocument file e ''amount'' = Some (Num (of_int n)) \<and> 1000 \<le> n \<and> n < 4000)"
proof -
  from assms(2) have "0 \<le> random1 e" "random1 e < 1" by (simp_all add: env_ok_def)
  from randomOffset_range [OF this, of 3000 1000]
  obtain n where n: "randomOffset (random1 e) 3000 1000 = Num (of_int n)" "1000 \<le> n" "n < 4000"
    by auto
  from assms(1) have d: "processDocument file e =
      [''billType'' \<mapsto> Str (lit ''other''),
       ''amount'' \<mapsto> randomOffset (random1 e) 3000 1000,
       ''billDate'' \<mapsto> Str (splitT0 (isoNow e)),
       ''vendor'' \<mapsto> Str (lit ''Unknown Vendor'')]"
    by (simp add: processDocument_def Let_def classification_keywords_def)
  have "\<exists>n. processDocument file e ''amount'' = Some (Num (of_int n)) \<and> 1000 \<le> n \<and> n < 4000"
    using n by (intro exI[of _ n]) (simp add: d)
  thus ?thesis by (simp add: d)
qed

theorem processDocument_default_witness:
  "list_all (\<lambda>k. \<not> includes_str (toLowerCase (name scan_file)) (lit k)) classification_keywords
   \<and> env_ok sample_env
   \<and> processDocument scan_file sample_env ''billType'' = Some (Str (lit ''other''))
   \<and> processDocument scan_file sample_env ''energyUsage'' = None
   \<and> processDocument scan_file sample_env ''vendor'' = Some (Str (lit ''Unknown Vendor''))
   \<and> processDocument scan_file sample_env ''billDate'' = Some (Str (lit ''2024-11-15''))
   \<and> processDocument scan_file sample_env ''amount'' = Some (Num 2500)"
proof -
  have k: "list_all (\<lambda>k. \<not> includes_str (toLowerCase (name scan_file)) (lit k))
             classification_keywords"
    by (simp add: scan_file_def processDocument_eval)
  have e: "env_ok sample_env" by (simp add: sample_env_def env_ok_def)
  have v: "processDocument scan_file sample_env ''amount'' = Some (Num 2500)"
      "processDocument scan_file sample_env ''billDate'' = Some (Str (lit ''2024-11-15''))"
    by (simp_all add: scan_file_def sample_env_def processDocument_eval)
  from processDocument_default [OF k e] k e v show ?thesis by simp
qed

section \<open>Batch metrics: results\<close>

lemma foldl_plus_sum_list:
  fixes h :: "'a \<Rightarrow> real"
  shows "foldl (\<lambda>sum item. sum + h item) a xs = a + sum_list (map h xs)"
  by (induction xs arbitrary: a) (simp_all add: add.assoc)

lemma reduceSum_sum_list: "reduceSum f docs = (\<Sum>d\<leftarrow>docs. orZero (d f))"
  by (simp add: reduceSum_def foldl_plus_sum_list)

text \<open>
  C4.  The claim asks that the fields \<open>energyUsage\<close>, \<open>waterConsumption\<close> and
  \<open>wasteGeneration\<close> of the metrics be the sums of the raw quantities over the batch.
  Under its comment \<open>Calculate sustainability metrics\<close>, \<open>handleFileUpload\<close> computes
  the carbon footprint and these three sums, and then stores literals in their place;
  only the sibling field \<open>esgScore\<close> receives what was computed.  For the upload of the
  one file \<open>mseb_bill.jpg\<close> with the draws 1/2 and 1/4, \<open>processDocument\<close> returns a
  document with \<open>energyUsage = 450\<close> and no water or waste quantity: the sums over this
  batch are 450, 0 and 0, while the metrics report 1250, 850 and 45.  The carbon
  footprint of the metrics is 2.4 whatever \<open>calculateCarbonFootprint\<close> returns, and the
  trends are fixed lists; the ESG score is the only field computed from the batch.
\<close>

theorem handleFileUpload_metrics_mseb_batch:
  "processDocument mseb_file sample_env ''energyUsage'' = Some (Num 450)
   \<and> processDocument mseb_file sample_env ''waterConsumption'' = None
   \<and> processDocument mseb_file sample_env ''wasteGeneration'' = None
   \<and> reduceSum ''energyUsage'' [processDocument mseb_file sample_env] = 450
   \<and> reduceSum ''waterConsumption'' [processDocument mseb_file sample_env] = 0
   \<and> reduceSum ''wasteGeneration'' [processDocument mseb_file sample_env] = 0
   \<and> energyUsage (handleFileUpload_metrics cf esg [processDocument mseb_file sample_env]) = 1250
   \<and> waterConsumption (handleFileUpload_metrics cf esg [processDocument mseb_file sample_env])
       = 850
   \<and> wasteGeneration (handleFileUpload_metrics cf esg [processDocument mseb_file sample_env]) = 45
   \<and> carbonFootprint (handleFileUpload_metrics cf esg [processDocument mseb_file sample_env])
       = 2.4
   \<and> trends (handleFileUpload_metrics cf esg [processDocument mseb_file sample_env])
       = \<lparr> carbon = [2.1, 2.3, 2.4, 2.2, 2.4],
           energy = [1180, 1200, 1250, 1220, 1250],
           water = [800, 820, 850, 830, 850],
           waste = [42, 44, 45, 43, 45] \<rparr>
   \<and> esgScore (handleFileUpload_metrics cf esg [processDocument mseb_file sample_env])
       = esg \<lparr> carbonIntensity = cf [processDocument mseb_file sample_env],
               energyEfficiency = 99.55,
               waterEfficiency = 100,
               wasteReduction = 100 \<rparr>"
proof -
  have v: "processDocument mseb_file sample_env ''energyUsage'' = Some (Num 450)"
    "processDocument mseb_file sample_env ''waterConsumption'' = None"
    "processDocument mseb_file sample_env ''wasteGeneration'' = None"
    by (simp_all add: mseb_file_def sample_env_def processDocument_eval)
  have r: "reduceSum ''energyUsage'' [processDocument mseb_file sample_env] = 450"
    "reduceSum ''waterConsumption'' [processDocument mseb_file sample_env] = 0"
    "reduceSum ''wasteGeneration'' [processDocument mseb_file sample_env] = 0"
    by (simp_all add: reduceSum_def orZero_def v)
  show ?thesis
    unfolding handleFileUpload_metrics_def Let_def r
    by (simp add: v)
qed

section \<open>The ESG scorer: results\<close>

lemma clamp100_range: "0 \<le> clamp100 x \<and> clamp100 x \<le> 100"
  by (simp add: clamp100_def)

lemma clamp100_mono: "a \<le> b \<Longrightarrow> clamp100 a \<le> clamp100 b"
  by (auto simp: clamp100_def)

lemma clamp100_idem: "clamp100 (clamp100 x) = clamp100 x"
  by (simp add: clamp100_def)

lemma calculateESGScore_range:
  assumes w: "weights_ok w"
  shows "0 \<le> calculateESGScore w i \<and> calculateESGScore w i \<le> 100"
proof -
  note c = clamp100_range
  have lo: "0 \<le> calculateESGScore w i"
    using w c by (simp add: calculateESGScore_def weights_ok_def)
  have "calculateESGScore w i
      \<le> w_carbon w * 100 + w_energy w * 100 + w_water w * 100 + w_waste w * 100"
    unfolding calculateESGScore_def using w c
    by (intro add_mono mult_left_mono) (simp_all add: weights_ok_def)
  also have "\<dots> = (w_carbon w + w_energy w + w_water w + w_waste w) * 100"
    by (simp add: algebra_simps)
  also have "\<dots> = 100" using w by (simp add: weights_ok_def)
  finally show ?thesis using lo by simp
qed

lemma calculateESGScore_mono:
  assumes "weights_ok w" "a \<le> b"
  shows "calculateESGScore w (i\<lparr>carbonIntensity := a\<rparr>) \<le> calculateESGScore w (i\<lparr>carbonIntensity := b\<rparr>)"
    and "calculateESGScore w (i\<lparr>energyEfficiency := a\<rparr>) \<le> calculateESGScore w (i\<lparr>energyEfficiency := b\<rparr>)"
    and "calculateESGScore w (i\<lparr>waterEfficiency := a\<rparr>) \<le> calculateESGScore w (i\<lparr>waterEfficiency := b\<rparr>)"
    and "calculateESGScore w (i\<lparr>wasteReduction := a\<rparr>) \<le> calculateESGScore w (i\<lparr>wasteReduction := b\<rparr>)"
  using assms by (simp_all add: calculateESGScore_def weights_ok_def mult_left_mono clamp100_mono)

text \<open>
  C7.  With weights that are non-negative and sum to 1, the composite score lies in
  \<open>[0, 100]\<close>; it sees each input only through its clamp to \<open>[0, 100]\<close> (replacing the
  inputs by their clamped values changes nothing); and raising any one input while the
  others are held fixed never lowers the score.
\<close>

theorem calculateESGScore_clamped_bounded_monotone:
  assumes "weights_ok w"
  shows "0 \<le> calculateESGScore w i \<and> calculateESGScore w i \<le> 100
    \<and> calculateESGScore w i = calculateESGScore w
          \<lparr> carbonIntensity = clamp100 (carbonIntensity i),
            energyEfficiency = clamp100 (energyEfficiency i),
            waterEfficiency = clamp100 (waterEfficiency i),
            wasteReduction = clamp100 (wasteReduction i) \<rparr>
    \<and> (a \<le> b \<longrightarrow>
          calculateESGScore w (i\<lparr>carbonIntensity := a\<rparr>) \<le> calculateESGScore w (i\<lparr>carbonIntensity := b\<rparr>)
        \<and> calculateESGScore w (i\<lparr>energyEfficiency := a\<rparr>) \<le> calculateESGScore w (i\<lparr>energyEfficiency := b\<rparr>)
        \<and> calculateESGScore w (i\<lparr>waterEfficiency := a\<rparr>) \<le> calculateESGScore w (i\<lparr>waterEfficiency := b\<rparr>)
        \<and> calculateESGScore w (i\<lparr>wasteReduction := a\<rparr>) \<le> calculateESGScore w (i\<lparr>wasteReduction := b\<rparr>))"
proof -
  have c: "calculateESGScore w i = calculateESGScore w
          \<lparr> carbonIntensity = clamp100 (carbonIntensity i),
            energyEfficiency = clamp100 (energyEfficiency i),
            waterEfficiency = clamp100 (waterEfficiency i),
            wasteReduction = clamp100 (wasteReduction i) \<rparr>"
    by (simp add: calculateESGScore_def clamp100_idem)
  show ?thesis
    using calculateESGScore_range [OF assms, of i] calculateESGScore_mono [OF assms, of a b i] c
    by simp
qed

theorem calculateESGScore_clamped_bounded_monotone_witness:
  "weights_ok sample_weights
   \<and> calculateESGScore sample_weights sample_input = 40.71
   \<and> 0 \<le> calculateESGScore sample_weights sample_input
   \<and> calculateESGScore sample_weights sample_input \<le> 100
   \<and> (30::real) \<le> 150
   \<and> calculateESGScore sample_weights (sample_input\<lparr>waterEfficiency := 30\<rparr>)
       \<le> calculateESGScore sample_weights (sample_input\<lparr>waterEfficiency := 150\<rparr>)"
proof -
  have w: "weights_ok sample_weights" by (simp add: weights_ok_def sample_weights_def)
  have v: "calculateESGScore sample_weights sample_input = 40.71"
    by (simp add: calculateESGScore_def sample_weights_def sample_input_def clamp100_def)
  from calculateESGScore_clamped_bounded_monotone [OF w, of sample_input 30 150] w v
  show ?thesis by simp
qed

section \<open>The emission calculator: results\<close>

lemma foldl_accumulate_total:
  "totalEmissions (foldl (accumulate factor) acc docs)
     = totalEmissions acc + (\<Sum>d\<leftarrow>docs. amountOf factor d)"
  by (induction docs arbitrary: acc)
     (auto simp: accumulate_def amountOf_def split: option.splits)

lemma amountTo_none:
  "\<forall>d\<in>set docs. \<not> contributesTo factor t d \<Longrightarrow> (\<Sum>d\<leftarrow>docs. amountTo factor t d) = 0"
  by (induction docs) (auto simp: amountTo_def contributesTo_def split: option.splits)

lemma foldl_accumulate_breakdown:
  "breakdown (foldl (accumulate factor) acc docs) t
     = (if \<exists>d\<in>set docs. contributesTo factor t d
        then Some ((case breakdown acc t of None \<Rightarrow> 0 | Some x \<Rightarrow> x)
                   + (\<Sum>d\<leftarrow>docs. amountTo factor t d))
        else breakdown acc t)"
proof (induction docs arbitrary: acc)
  case Nil
  show ?case by simp
next
  case (Cons d docs)
  show ?case
  proof (cases "\<exists>d\<in>set docs. contributesTo factor t d")
    case True
    then show ?thesis
      by (simp add: Cons.IH)
         (auto simp: accumulate_def amountTo_def contributesTo_def split: option.splits)
  next
    case False
    hence z: "(\<Sum>d\<leftarrow>docs. amountTo factor t d) = 0" by (simp add: amountTo_none)
    from False show ?thesis
      by (simp add: Cons.IH z)
         (auto simp: accumulate_def amountTo_def contributesTo_def split: option.splits)
  qed
qed

lemma sum_list_map_mset:
  fixes h :: "'a \<Rightarrow> real"
  assumes "mset xs = mset ys"
  shows "(\<Sum>x\<leftarrow>xs. h x) = (\<Sum>x\<leftarrow>ys. h x)"
proof -
  have "(\<Sum>x\<leftarrow>xs. h x) = sum_mset (image_mset h (mset xs))"
    by (simp flip: sum_mset_sum_list)
  also have "\<dots> = sum_mset (image_mset h (mset ys))" using assms by simp
  also have "\<dots> = (\<Sum>x\<leftarrow>ys. h x)" by (simp flip: sum_mset_sum_list)
  finally show ?thesis .
qed

lemma foldl_accumulate_perm:
  assumes "mset docs = mset docs'"
  shows "foldl (accumulate factor) acc docs = foldl (accumulate factor) acc docs'"
proof -
  have s: "set docs = set docs'" using assms by (rule mset_eq_setD)
  have t: "totalEmissions (foldl (accumulate factor) acc docs)
         = totalEmissions (foldl (accumulate factor) acc docs')"
    by (simp add: foldl_accumulate_total sum_list_map_mset [OF assms])
  have b: "breakdown (foldl (accumulate factor) acc docs)
         = breakdown (foldl (accumulate factor) acc docs')"
    by (rule ext) (simp add: foldl_accumulate_breakdown s sum_list_map_mset [OF assms])
  show ?thesis using t b by (simp add: EmissionResult.equality)
qed

text \<open>
  C8.  Two batches that are permutations of each other (the same documents with the same
  multiplicities) give the same result: both are rejected, or both yield the same
  \<open>totalEmissions\<close> and the same \<open>breakdown\<close> mapping.
\<close>

theorem calculateEmissions_permutation:
  assumes "mset docs = mset docs'"
  shows "calculateEmissions factor docs = calculateEmissions factor docs'"
proof -
  have "set docs = set docs'" using assms by (rule mset_eq_setD)
  hence "list_ex negativeQuantity docs = list_ex negativeQuantity docs'"
    by (simp add: list_ex_iff)
  thus ?thesis by (simp add: calculateEmissions_def foldl_accumulate_perm [OF assms])
qed

theorem calculateEmissions_permutation_witness:
  "mset [electricity_doc, water_doc] = mset [water_doc, electricity_doc]
   \<and> calculateEmissions readmeFactor [electricity_doc, water_doc]
       = calculateEmissions readmeFactor [water_doc, electricity_doc]
   \<and> (case calculateEmissions readmeFactor [electricity_doc, water_doc] of
         Inr r \<Rightarrow> totalEmissions r = 203.71
                 \<and> breakdown r (lit ''electricity'') = Some 201.31
                 \<and> breakdown r (lit ''water'') = Some 2.4
                 \<and> breakdown r (lit ''fuel'') = None
       | Inl e \<Rightarrow> False)"
  using calculateEmissions_permutation
    [of "[electricity_doc, water_doc]" "[water_doc, electricity_doc]" readmeFactor]
  by (simp add: calculateEmissions_def electricity_doc_def water_doc_def negativeQuantity_def
      quantityField_def accumulate_def contribution_def lit_simps readmeFactor_def)

section \<open>The matcher: results\<close>

text \<open>The equation for \<open>*\<close> unfolds into itself; it is applied by hand.\<close>

declare matches.simps(5) [simp del]

lemma lang_Star_Nil: "[] \<in> lang (Star r)"
proof -
  have "[] = concat ([] :: jsstring list) \<and> set ([] :: jsstring list) \<subseteq> lang r" by simp
  thus ?thesis unfolding lang.simps by blast
qed

lemma lang_Star_Cons:
  assumes "u \<in> lang r" "v \<in> lang (Star r)"
  shows "u @ v \<in> lang (Star r)"
proof -
  from assms(2) obtain ws where ws: "v = concat ws" "set ws \<subseteq> lang r"
    unfolding lang.simps by blast
  have "u @ v = concat (u # ws) \<and> set (u # ws) \<subseteq> lang r" using ws assms(1) by simp
  thus ?thesis unfolding lang.simps by blast
qed

lemma matches_sound:
  "(pv', s', g') \<in> set (matches r (pv, s, g)) \<Longrightarrow> \<exists>w\<in>lang r. s = w @ s'"
proof (induction r "(pv, s, g)" arbitrary: pv s g pv' s' g' rule: matches.induct)
  case (1 p pv s g)
  then show ?case by (auto split: list.splits if_splits)
next
  case (2 st)
  then show ?case by simp
next
  case (3 r1 r2 pv s g)
  from "3.prems" obtain m where m: "m \<in> set (matches r1 (pv, s, g))"
    and r: "(pv', s', g') \<in> set (matches r2 m)" by auto
  obtain pv1 s1 g1 where m_eq: "m = (pv1, s1, g1)" by (cases m)
  from "3.hyps"(1) [of pv1 s1 g1] m m_eq obtain u where u: "u \<in> lang r1" "s = u @ s1" by blast
  from "3.hyps"(2) [OF m [unfolded m_eq]] r m_eq
  obtain v where v: "v \<in> lang r2" "s1 = v @ s'" by blast
  show ?case using u v by auto
next
  case (4 r1 r2 pv s g)
  from "4.prems" have "(pv', s', g') \<in> set (matches r1 (pv, s, g))
      \<or> (pv', s', g') \<in> set (matches r2 (pv, s, g))" by simp
  then show ?case
  proof
    assume "(pv', s', g') \<in> set (matches r1 (pv, s, g))"
    from "4.hyps"(1) [OF this] show ?thesis by auto
  next
    assume "(pv', s', g') \<in> set (matches r2 (pv, s, g))"
    from "4.hyps"(2) [OF this] show ?thesis by auto
  qed
next
  case (5 r pv s g)
  from "5.prems" consider
    (stop) "s' = s"
    | (step) m where "m \<in> set (matches r (pv, s, g))" "length (fst (snd m)) < length s"
        "(pv', s', g') \<in> set (matches (Star r) m)"
    by (subst (asm) matches.simps(5)) (auto split: if_splits)
  then show ?case
  proof cases
    case stop
    show ?thesis using stop lang_Star_Nil [of r] by (simp add: Bex_def del: lang.simps)
  next
    case step
    obtain pv1 s1 g1 where m_eq: "m = (pv1, s1, g1)" by (cases m)
    from "5.hyps"(1) [of pv1 s1 g1] step(1) m_eq obtain u where u: "u \<in> lang r" "s = u @ s1" by blast
    from "5.hyps"(2) [of pv1 s1 g1 pv' s' g'] step m_eq
    obtain v where v: "v \<in> lang (Star r)" "s1 = v @ s'" by (auto simp del: lang.simps)
    have "u @ v \<in> lang (Star r)" using u(1) v(1) by (rule lang_Star_Cons)
    then show ?thesis using u(2) v(2) by (simp add: Bex_def del: lang.simps)
  qed
next
  case (6 r pv s g)
  then show ?case by auto
next
  case (7 pv s g)
  then show ?case by (auto simp: Let_def split: if_splits)
qed


lemma matches_group_free:
  "group_free r \<Longrightarrow> (pv', s', g') \<in> set (matches r (pv, s, g)) \<Longrightarrow> g' = g"
proof (induction r "(pv, s, g)" arbitrary: pv s g pv' s' g' rule: matches.induct)
  case (1 p pv s g)
  then show ?case by (auto split: list.splits if_splits)
next
  case (2 st)
  then show ?case by simp
next
  case (3 r1 r2 pv s g)
  from "3.prems" obtain m where m: "m \<in> set (matches r1 (pv, s, g))"
    and r: "(pv', s', g') \<in> set (matches r2 m)" by auto
  obtain pv1 s1 g1 where m_eq: "m = (pv1, s1, g1)" by (cases m)
  from "3.hyps"(1) [of pv1 s1 g1] m m_eq "3.prems" have "g1 = g" by simp
  moreover from "3.hyps"(2) [OF m [unfolded m_eq]] r m_eq "3.prems" have "g' = g1" by simp
  ultimately show ?case by simp
next
  case (4 r1 r2 pv s g)
  then show ?case by auto
next
  case (5 r pv s g)
  from "5.prems"(2) consider
    (stop) "g' = g"
    | (step) m where "m \<in> set (matches r (pv, s, g))" "length (fst (snd m)) < length s"
        "(pv', s', g') \<in> set (matches (Star r) m)"
    by (subst (asm) matches.simps(5)) (auto split: if_splits)
  then show ?case
  proof cases
    case stop
    then show ?thesis .
  next
    case step
    obtain pv1 s1 g1 where m_eq: "m = (pv1, s1, g1)" by (cases m)
    from "5.hyps"(1) [of pv1 s1 g1] step(1) m_eq "5.prems"(1) have "g1 = g" by simp
    moreover from "5.hyps"(2) [of pv1 s1 g1 pv' s' g'] step m_eq "5.prems"(1)
    have "g' = g1" by auto
    ultimately show ?thesis by simp
  qed
next
  case (6 r pv s g)
  then show ?case by simp
next
  case (7 pv s g)
  then show ?case by (auto simp: Let_def split: if_splits)
qed

lemma matches_Star_unfold:
  "matches (Star r) st =
     concat (map (\<lambda>st'. if length (fst (snd st')) < length (fst (snd st))
                          then matches (Star r) st' else [])
                 (matches r st)) @ [st]"
  by (rule matches.simps(5))

lemma matches_Star_stop: "st \<in> set (matches (Star r) st)"
  by (subst matches.simps(5)) simp

lemma matches_Star_step:
  assumes "m \<in> set (matches r st)" "length (fst (snd m)) < length (fst (snd st))"
    and "x \<in> set (matches (Star r) m)"
  shows "x \<in> set (matches (Star r) st)"
  using assms by (subst matches.simps(5)) auto

lemma matches_complete:
  "no_wordb r \<Longrightarrow> w \<in> lang r \<Longrightarrow> \<exists>pv' g'. (pv', s', g') \<in> set (matches r (pv, w @ s', g))"
proof (induction r arbitrary: w s' pv g)
  case (Chars p)
  then show ?case by auto
next
  case Eps
  then show ?case by simp
next
  case (Seq a b)
  from Seq.prems obtain u v where w: "w = u @ v" "u \<in> lang a" "v \<in> lang b" by auto
  from Seq.prems have nw: "no_wordb a" "no_wordb b" by simp_all
  from Seq.IH(1) [OF nw(1) w(2), of "v @ s'" pv g]
  obtain pv1 g1 where m1: "(pv1, v @ s', g1) \<in> set (matches a (pv, u @ v @ s', g))" by blast
  from Seq.IH(2) [OF nw(2) w(3), of s' pv1 g1]
  obtain pv2 g2 where m2: "(pv2, s', g2) \<in> set (matches b (pv1, v @ s', g1))" by blast
  have "(pv2, s', g2) \<in> set (matches (Seq a b) (pv, w @ s', g))"
    using m1 m2 w(1) by simp blast
  then show ?case by blast
next
  case (Alt a b)
  from Alt.prems have "w \<in> lang a \<or> w \<in> lang b" by simp
  then show ?case
  proof
    assume "w \<in> lang a"
    from Alt.IH(1) [OF _ this, of s' pv g] Alt.prems(1) show ?thesis
      by simp blast
  next
    assume "w \<in> lang b"
    from Alt.IH(2) [OF _ this, of s' pv g] Alt.prems(1) show ?thesis
      by simp blast
  qed
next
  case (Star a)
  from Star.prems have nw: "no_wordb a" by simp
  from Star.prems obtain ws where ws: "w = concat ws" "set ws \<subseteq> lang a" by auto
  have "\<exists>pv' g'. (pv', s', g') \<in> set (matches (Star a) (pv, concat ws @ s', g))"
    using ws(2)
  proof (induction ws arbitrary: pv g)
    case Nil
    show ?case using matches_Star_stop [of "(pv, s', g)" a] by auto
  next
    case (Cons u rest)
    from Cons.prems have u: "u \<in> lang a" and rest: "set rest \<subseteq> lang a" by simp_all
    show ?case
    proof (cases "u = []")
      case True
      with Cons.IH [OF rest, of pv g] show ?thesis by simp
    next
      case False
      from Star.IH [OF nw u, of "concat rest @ s'" pv g]
      obtain pv1 g1 where m1:
        "(pv1, concat rest @ s', g1) \<in> set (matches a (pv, u @ concat rest @ s', g))" by blast
      from Cons.IH [OF rest, of pv1 g1]
      obtain pv2 g2 where m2:
        "(pv2, s', g2) \<in> set (matches (Star a) (pv1, concat rest @ s', g1))" by blast
      have "(pv2, s', g2) \<in> set (matches (Star a) (pv, u @ concat rest @ s', g))"
        using False by (intro matches_Star_step [OF m1 _ m2]) simp
      then show ?thesis by auto
    qed
  qed
  then show ?case using ws(1) by simp
next
  case (Group a)
  from Group.IH [of w s' pv g] Group.prems
  obtain pv1 g1 where "(pv1, s', g1) \<in> set (matches a (pv, w @ s', g))" by auto
  hence "(pv1, s', Some (take (length (w @ s') - length s') (w @ s')))
           \<in> set (matches (Group a) (pv, w @ s', g))"
    by simp force
  then show ?case by blast
next
  case WordB
  then show ?case by simp
qed

declare search.simps [simp del]

lemma search_Nil:
  "search r pv [] = (case matches r (pv, [], None) of [] \<Rightarrow> None | m # _ \<Rightarrow> Some (group1 m))"
  by (subst search.simps) (simp add: group1_def split: list.splits)

lemma search_Cons:
  "search r pv (x # xs) =
     (case matches r (pv, x # xs, None) of [] \<Rightarrow> search r (Some x) xs | m # _ \<Rightarrow> Some (group1 m))"
  by (subst search.simps) (simp add: group1_def split: list.splits)

lemma prevAt_Cons: "prevAt pv (x # pre) = prevAt (Some x) pre"
  by (simp add: prevAt_def)

lemma search_None_iff:
  "search r pv s = None \<longleftrightarrow> (\<forall>pre s2. s = pre @ s2 \<longrightarrow> matches r (prevAt pv pre, s2, None) = [])"
proof (induction s arbitrary: pv)
  case Nil
  show ?case by (simp add: search_Nil prevAt_def split: list.splits)
next
  case (Cons x xs)
  show ?case
  proof (cases "matches r (pv, x # xs, None)")
    case Nil
    have "(\<forall>pre s2. x # xs = pre @ s2 \<longrightarrow> matches r (prevAt pv pre, s2, None) = [])
        \<longleftrightarrow> (\<forall>pre s2. xs = pre @ s2 \<longrightarrow> matches r (prevAt (Some x) pre, s2, None) = [])"
      (is "?L \<longleftrightarrow> ?R")
    proof
      assume l: ?L
      show ?R
      proof (intro allI impI)
        fix pre s2 assume "xs = pre @ s2"
        hence "x # xs = (x # pre) @ s2" by simp
        from l [rule_format, OF this] show "matches r (prevAt (Some x) pre, s2, None) = []"
          by (simp add: prevAt_Cons)
      qed
    next
      assume rr: ?R
      show ?L
      proof (intro allI impI)
        fix pre s2 assume e: "x # xs = pre @ s2"
        show "matches r (prevAt pv pre, s2, None) = []"
        proof (cases pre)
          case Nil
          with e Nil show ?thesis using \<open>matches r (pv, x # xs, None) = []\<close>
            by (simp add: prevAt_def)
        next
          case (Cons y pre')
          with e have "xs = pre' @ s2" "y = x" by simp_all
          with rr Cons show ?thesis by (simp add: prevAt_Cons)
        qed
      qed
    qed
    with Nil Cons.IH [of "Some x"] show ?thesis by (simp add: search_Cons)
  next
    case (Cons m ms)
    have "x # xs = [] @ (x # xs)" by simp
    with Cons have "\<not> (\<forall>pre s2. x # xs = pre @ s2 \<longrightarrow> matches r (prevAt pv pre, s2, None) = [])"
      by (metis list.distinct(1) prevAt_def)
    with Cons show ?thesis by (simp add: search_Cons)
  qed
qed

lemma search_SomeD:
  "search r pv s = Some v \<Longrightarrow>
     \<exists>pre s2 m ms. s = pre @ s2 \<and> matches r (prevAt pv pre, s2, None) = m # ms \<and> v = group1 m
       \<and> (\<forall>pre' s3. s = pre' @ s3 \<and> length pre' < length pre
              \<longrightarrow> matches r (prevAt pv pre', s3, None) = [])"
proof (induction s arbitrary: pv)
  case Nil
  then obtain m ms where "matches r (pv, [], None) = m # ms" "v = group1 m"
    by (auto simp: search_Nil split: list.splits)
  then show ?case by (intro exI[of _ "[]"] exI[of _ m] exI[of _ ms]) (simp add: prevAt_def)
next
  case (Cons x xs)
  show ?case
  proof (cases "matches r (pv, x # xs, None)")
    case Nil
    with Cons.prems have "search r (Some x) xs = Some v" by (simp add: search_Cons)
    from Cons.IH [OF this] obtain pre s2 m ms where
      p: "xs = pre @ s2" "matches r (prevAt (Some x) pre, s2, None) = m # ms" "v = group1 m"
      and mn: "\<forall>pre' s3. xs = pre' @ s3 \<and> length pre' < length pre
              \<longrightarrow> matches r (prevAt (Some x) pre', s3, None) = []"
      by blast
    have "\<forall>pre' s3. x # xs = pre' @ s3 \<and> length pre' < length (x # pre)
              \<longrightarrow> matches r (prevAt pv pre', s3, None) = []"
    proof (intro allI impI)
      fix pre' s3 assume a: "x # xs = pre' @ s3 \<and> length pre' < length (x # pre)"
      show "matches r (prevAt pv pre', s3, None) = []"
      proof (cases pre')
        case Nil
        with a \<open>matches r (pv, x # xs, None) = []\<close> show ?thesis by (simp add: prevAt_def)
      next
        case (Cons y q)
        with a have "xs = q @ s3" "y = x" "length q < length pre" by simp_all
        with mn Cons show ?thesis by (simp add: prevAt_Cons)
      qed
    qed
    with p show ?thesis
      by (intro exI[of _ "x # pre"] exI[of _ s2] exI[of _ m] exI[of _ ms]) (simp add: prevAt_Cons)
  next
    case (Cons m ms)
    with Cons.prems have "v = group1 m" by (simp add: search_Cons)
    with Cons show ?thesis
      by (intro exI[of _ "[]"] exI[of _ "x # xs"] exI[of _ m] exI[of _ ms]) (simp add: prevAt_def)
  qed
qed

lemma matches_SeqD:
  "x \<in> set (matches (Seq a b) st) \<Longrightarrow> \<exists>m\<in>set (matches a st). x \<in> set (matches b m)"
  by simp

lemma matches_SeqI:
  "m \<in> set (matches a st) \<Longrightarrow> x \<in> set (matches b m) \<Longrightarrow> x \<in> set (matches (Seq a b) st)"
  by auto

lemma matches_Group:
  assumes "(pv', s', g') \<in> set (matches (Group G) (pv, s, g))"
  shows "\<exists>w\<in>lang G. s = w @ s' \<and> g' = Some w"
proof -
  from assms obtain g1 where m: "(pv', s', g1) \<in> set (matches G (pv, s, g))"
    and g': "g' = Some (take (length s - length s') s)" by auto
  from matches_sound [OF m] obtain w where w: "w \<in> lang G" "s = w @ s'" by blast
  from w(2) g' have "g' = Some w" by simp
  with w show ?thesis by blast
qed

text \<open>Group first, as in the energy and water patterns.\<close>
lemma matches_Group_then:
  assumes "group_free Y" "(pv', s', g') \<in> set (matches (Seq (Group G) Y) (pv, s, g))"
  shows "\<exists>w\<in>lang G. \<exists>v\<in>lang Y. s = w @ v @ s' \<and> g' = Some w"
proof -
  from matches_SeqD [OF assms(2)] obtain m where m: "m \<in> set (matches (Group G) (pv, s, g))"
    and r: "(pv', s', g') \<in> set (matches Y m)" by blast
  obtain pv1 s1 g1 where m_eq: "m = (pv1, s1, g1)" by (cases m)
  from matches_Group [OF m [unfolded m_eq]] obtain w where w: "w \<in> lang G" "s = w @ s1" "g1 = Some w"
    by blast
  from matches_sound [OF r [unfolded m_eq]] obtain v where v: "v \<in> lang Y" "s1 = v @ s'" by blast
  from matches_group_free [OF assms(1) r [unfolded m_eq]] have "g' = g1" .
  with w v show ?thesis by blast
qed

text \<open>Group last, as in the amount pattern.\<close>
lemma matches_then_Group:
  assumes "(pv', s', g') \<in> set (matches (Seq H (Group G)) (pv, s, g))"
  shows "\<exists>u\<in>lang H. \<exists>w\<in>lang G. s = u @ w @ s' \<and> g' = Some w"
proof -
  from matches_SeqD [OF assms] obtain m where m: "m \<in> set (matches H (pv, s, g))"
    and r: "(pv', s', g') \<in> set (matches (Group G) m)" by blast
  obtain pv1 s1 g1 where m_eq: "m = (pv1, s1, g1)" by (cases m)
  from matches_sound [OF m [unfolded m_eq]] obtain u where u: "u \<in> lang H" "s = u @ s1" by blast
  from matches_Group [OF r [unfolded m_eq]] obtain w where w: "w \<in> lang G" "s1 = w @ s'" "g' = Some w"
    by blast
  with u show ?thesis by blast
qed

section \<open>Binary64 numbers: results\<close>

lemma roundTiesToEven_of_int: "roundTiesToEven (of_int n) = n"
  by (simp add: roundTiesToEven_def)

lemma roundTiesToEven_nonneg: "0 \<le> q \<Longrightarrow> 0 \<le> roundTiesToEven q"
  by (auto simp: roundTiesToEven_def Let_def)

lemma roundBinary64_nonneg:
  "roundBinary64 x = PosInfinity \<or> (\<exists>y. roundBinary64 x = Num y \<and> (0 \<le> x \<longrightarrow> 0 \<le> y))"
proof -
  let ?u = "2 powi (max \<lfloor>log 2 x\<rfloor> (- 1022) - 52) :: real"
  have u: "0 < ?u" by simp
  hence "0 \<le> x \<Longrightarrow> 0 \<le> of_int (roundTiesToEven (x / ?u)) * ?u"
    by (simp add: roundTiesToEven_nonneg)
  thus ?thesis by (auto simp: roundBinary64_def Let_def)
qed

lemma numberValue_nonneg:
  assumes "0 \<le> x"
  shows "numberValue x = PosInfinity \<or> (\<exists>y. numberValue x = Num y \<and> 0 \<le> y)"
  using assms roundBinary64_nonneg [of x] by (auto simp: numberValue_def)

lemma floor_log2_less:
  assumes "0 < x" "x < 2 powi k"
  shows "\<lfloor>log 2 x\<rfloor> < k"
proof -
  have "(2::real) powi k = 2 powr (of_int k)" by (simp add: powr_real_of_int')
  with assms have "log 2 x < of_int k" by (simp add: log_less_iff)
  thus ?thesis by (simp add: floor_less_iff)
qed

lemma roundBinary64_exact:
  assumes "0 < x" "x = of_int m * 2 powi e" "m < 2 ^ 53" "- 1074 \<le> e" "e \<le> 971"
  shows "roundBinary64 x = Num x"
proof -
  have p: "0 < (2::real) powi e" by simp
  from assms(3) have mr: "real_of_int m < 2 ^ 53"
    by (metis of_int_less_iff of_int_numeral of_int_power)
  hence "x < 2 ^ 53 * 2 powi e" unfolding assms(2) using p by (simp only: mult_strict_right_mono)
  also have "\<dots> = 2 powi (53 + e)" by (simp add: power_int_add)
  finally have ub: "x < 2 powi (53 + e)" .
  from floor_log2_less [OF assms(1) ub] have L: "\<lfloor>log 2 x\<rfloor> \<le> 52 + e" by simp
  define E where "E = max \<lfloor>log 2 x\<rfloor> (- 1022)"
  from L assms(4) have Ee: "E - 52 \<le> e" by (simp add: E_def)
  define k where "k = nat (e - (E - 52))"
  from Ee have ek: "e = (E - 52) + int k" by (simp add: k_def)
  let ?u = "(2::real) powi (E - 52)"
  have u: "0 < ?u" by simp
  have pe: "(2::real) powi e = ?u * 2 ^ k"
    by (subst ek, subst power_int_add) simp_all
  have q: "x / ?u = of_int (m * 2 ^ k)"
    unfolding assms(2) pe using u by simp
  have y: "of_int (roundTiesToEven (x / ?u)) * ?u = x"
    unfolding q roundTiesToEven_of_int unfolding assms(2) pe by simp
  have "(2::real) powi (53 + e) \<le> 2 powi 1024"
    using assms(5) by (intro power_int_increasing) simp_all
  with ub have "x < 2 ^ 1024" by simp
  thus ?thesis
    unfolding roundBinary64_def Let_def E_def [symmetric] y by simp
qed

lemma numberValue_exact:
  assumes "is_binary64 x" "0 \<le> x"
  shows "numberValue x = Num x"
proof (cases "x = 0")
  case True
  then show ?thesis by (simp add: numberValue_def)
next
  case False
  with assms(2) have pos: "0 < x" by simp
  from assms(1) obtain m e where me: "x = of_int m * 2 powi e" "\<bar>m\<bar> < 2 ^ 53" "- 1074 \<le> e" "e \<le> 971"
    unfolding is_binary64_def by blast
  from me(2) have "m < 2 ^ 53" by simp
  from roundBinary64_exact [OF pos me(1) this me(3,4)] pos show ?thesis
    by (simp add: numberValue_def)
qed

lemma is_binary64_of_nat: "n < 2 ^ 53 \<Longrightarrow> is_binary64 (real n)"
  unfolding is_binary64_def
  by (intro exI[of _ "int n"] exI[of _ 0]) (simp add: of_nat_less_numeral_power_cancel_iff)

lemma is_binary64_halves: "\<bar>m\<bar> < 2 ^ 53 \<Longrightarrow> is_binary64 (of_int m / 2)"
  unfolding is_binary64_def
  by (intro exI[of _ m] exI[of _ "-1"]) (simp add: power_int_minus)

lemma numberValue_numeral:
  "numeral k < (2::nat) ^ 53 \<Longrightarrow> numberValue (numeral k) = Num (numeral k)"
  using numberValue_exact [OF is_binary64_of_nat [of "numeral k"]] by simp

lemma numberValue_numeral_half:
  "numeral k < (2::int) ^ 53 \<Longrightarrow> numberValue (numeral k / 2) = Num (numeral k / 2)"
  using numberValue_exact [OF is_binary64_halves [of "numeral k"]] by simp

lemma numberValue_zero: "numberValue 0 = Num 0"
  by (simp add: numberValue_def)

lemma floor_log2_eq:
  assumes "2 powi k \<le> x" "x < 2 powi (k + 1)"
  shows "\<lfloor>log 2 x\<rfloor> = k"
proof -
  have p: "0 < (2::real) powi k" by simp
  with assms(1) have x: "0 < x" by linarith
  have e: "\<And>j. (2::real) powi j = 2 powr (of_int j)" by (simp add: powr_real_of_int')
  from assms(1) x have "of_int k \<le> log 2 x" by (simp add: e le_log_iff)
  moreover from assms(2) x have "log 2 x < of_int k + 1" using e [of "k + 1"] by (simp add: log_less_iff)
  ultimately show ?thesis by (simp add: floor_eq_iff)
qed

text \<open>From \<open>2 ^ 1024\<close> on the Number value is infinity.\<close>

lemma roundTiesToEven_mono_int:
  assumes "of_int n \<le> q"
  shows "n \<le> roundTiesToEven q"
proof -
  from assms have "n \<le> \<lfloor>q\<rfloor>" by (simp add: le_floor_iff)
  thus ?thesis by (simp add: roundTiesToEven_def Let_def)
qed

lemma roundBinary64_overflow:
  assumes "2 ^ 1024 \<le> x"
  shows "roundBinary64 x = PosInfinity"
proof -
  define E where "E = \<lfloor>log 2 x\<rfloor>"
  have "(0::real) < 2 ^ 1024" by simp
  with assms have x: "0 < x" by linarith
  have "(2::real) ^ 1024 = 2 powr 1024" by simp
  with assms x have "1024 \<le> log 2 x" by (simp add: le_log_iff)
  hence E: "1024 \<le> E" by (simp add: E_def le_floor_iff)
  hence m: "max E (- 1022) = E" by simp
  let ?u = "(2::real) powi (E - 52)"
  have u: "0 < ?u" by simp
  have "2 powr (of_int E) \<le> x" using x by (simp add: E_def flip: le_log_iff)
  hence "2 powi E \<le> x" by (simp add: powr_real_of_int')
  moreover have "(2::real) powi E = 2 ^ 52 * ?u" by (simp add: power_int_diff)
  ultimately have "of_int (2 ^ 52) \<le> x / ?u" using u by (simp add: le_divide_eq)
  hence "2 ^ 52 \<le> roundTiesToEven (x / ?u)" by (rule roundTiesToEven_mono_int)
  hence "(2::real) ^ 52 \<le> of_int (roundTiesToEven (x / ?u))"
    by (metis of_int_le_iff of_int_numeral of_int_power)
  hence "2 ^ 52 * ?u \<le> of_int (roundTiesToEven (x / ?u)) * ?u" using u by simp
  moreover have "(2::real) ^ 1024 \<le> 2 ^ 52 * ?u"
  proof -
    have "(2::real) powi 1024 \<le> 2 powi E" using E by (intro power_int_increasing) simp_all
    thus ?thesis by (simp add: power_int_diff)
  qed
  ultimately have "2 ^ 1024 \<le> of_int (roundTiesToEven (x / ?u)) * ?u" by linarith
  thus ?thesis unfolding roundBinary64_def Let_def E_def [symmetric] m by simp
qed


text \<open>
  Two numerals that are not binary64 numbers: the first lies half way between two of
  them and goes to the even one, the second is beyond the range.
\<close>

lemma parseFloat_rounds: "parseFloat (lit ''9007199254740993'') = Num 9007199254740992"
proof -
  have l: "\<lfloor>log 2 9007199254740993\<rfloor> = 53"
    by (rule floor_log2_eq) simp_all
  have f: "\<lfloor>9007199254740993 / 2 :: real\<rfloor> = 4503599627370496"
    by (simp add: floor_eq_iff)
  have r: "roundBinary64 9007199254740993 = Num 9007199254740992"
    unfolding roundBinary64_def Let_def l by (simp add: roundTiesToEven_def Let_def f)
  show ?thesis
    by (simp add: parseFloat_def Let_def lit_simps isSpace_def isDigit_def natVal_def digitVal_def
        exponentPart_def numberValue_def r)
qed

lemma parseFloat_overflow: "parseFloat (lit ''1e400'') = PosInfinity"
proof -
  have "(2::real) ^ 1024 \<le> 10 ^ 400" by simp
  hence r: "roundBinary64 (10 ^ 400) = PosInfinity" by (rule roundBinary64_overflow)
  show ?thesis
    using r
    by (simp add: parseFloat_def Let_def lit_simps isSpace_def isDigit_def natVal_def digitVal_def
        exponentPart_def numberValue_def)
qed

section \<open>Field extraction: results\<close>

lemma isDigit_unat: "isDigit c \<longleftrightarrow> 48 \<le> unat c \<and> unat c \<le> 57"
  by (simp add: isDigit_def word_le_nat_alt)

lemma isDigit_not_isSpace: "isDigit c \<Longrightarrow> \<not> isSpace c"
  by (auto simp: isDigit_def isSpace_def word_le_nat_alt)

lemma isDigit_not_punct:
  "isDigit c \<Longrightarrow> c \<noteq> 0x2D \<and> c \<noteq> 0x2B \<and> c \<noteq> 0x2C \<and> c \<noteq> 0x2E"
  by (auto simp: isDigit_def)

lemma isDigit_not_I: "isDigit c \<Longrightarrow> \<not> startsWith (c # t) (lit ''Infinity'')"
  by (auto simp: lit_simps isDigit_def)

lemma parseFloat_digit_first:
  assumes "isDigit c"
  shows "parseFloat (c # t) = PosInfinity \<or> (\<exists>v. parseFloat (c # t) = Num v \<and> 0 \<le> v)"
proof -
  let ?s = "c # t"
  from assms have sp: "dropWhile isSpace ?s = ?s" by (simp add: isDigit_not_isSpace)
  from assms have sg: "c \<noteq> 0x2D" "c \<noteq> 0x2B" using isDigit_not_punct by blast+
  from assms have ip: "takeWhile isDigit ?s \<noteq> []" by simp
  note inf = isDigit_not_I [OF assms, of t]
  define s3 where "s3 = dropWhile isDigit ?s"
  define dot where "dot = (s3 \<noteq> [] \<and> hd s3 = 0x2E)"
  define fp where "fp = (if dot then takeWhile isDigit (tl s3) else [])"
  define s4 where "s4 = (if dot then dropWhile isDigit (tl s3) else s3)"
  define m where "m = real (natVal (takeWhile isDigit ?s)) + real (natVal fp) / 10 ^ length fp"
  define v where "v = (if 0 \<le> exponentPart s4 then m * 10 ^ nat (exponentPart s4)
                       else m / 10 ^ nat (- exponentPart s4))"
  have m0: "0 \<le> m" by (simp add: m_def)
  hence v0: "0 \<le> v" by (simp add: v_def)
  have "parseFloat ?s = numberValue v"
    unfolding parseFloat_def Let_def sp
    using sg ip inf by (simp add: v_def m_def s4_def fp_def dot_def s3_def)
  with numberValue_nonneg [OF v0] show ?thesis by simp
qed

lemma lang_Plus_first:
  "w \<in> lang (Seq (Plus (Chars p)) X) \<Longrightarrow> \<exists>c t. w = c # t \<and> p c"
  by (auto simp: Plus_def)

lemma match1_SomeD:
  assumes "match1 text r = Some v"
  shows "\<exists>pv s m. m \<in> set (matches r (pv, s, None)) \<and> v = group1 m"
proof -
  from search_SomeD [OF assms [unfolded match1_def]]
  obtain pre s2 m ms where "matches r (prevAt None pre, s2, None) = m # ms" "v = group1 m" by blast
  hence "m \<in> set (matches r (prevAt None pre, s2, None))" by simp
  with \<open>v = group1 m\<close> show ?thesis by blast
qed

lemma energy_capture_digit:
  assumes "match1 text energy_pattern = Some v"
  shows "\<exists>c t. v = Str (c # t) \<and> isDigit c"
proof -
  from match1_SomeD [OF assms] obtain pv s m where
    m: "m \<in> set (matches energy_pattern (pv, s, None))" and v: "v = group1 m" by blast
  obtain pv' s' g' where m_eq: "m = (pv', s', g')" by (cases m)
  have "\<exists>w\<in>lang (Seq (Plus digit) (Opt (Seq (chr_i 0x2E) (Plus digit)))). \<exists>u\<in>lang (Seq (Star space)
        (Alt (lit_i ''kwh'') (Alt (lit_i ''kw'') (Seq (lit_i ''unit'') (Opt (chr_i 0x73)))))).
          s = w @ u @ s' \<and> g' = Some w"
    by (rule matches_Group_then [OF _ m [unfolded m_eq energy_pattern_def]])
       (simp add: space_def lit_i_def chr_i_def Opt_def)
  then obtain w where w: "w \<in> lang (Seq (Plus digit) (Opt (Seq (chr_i 0x2E) (Plus digit))))"
    and g': "g' = Some w" by blast
  from lang_Plus_first [OF w [unfolded digit_def]] obtain c t where "w = c # t" "isDigit c" by blast
  with v g' m_eq show ?thesis by (simp add: group1_def)
qed

lemma water_capture_digit:
  assumes "match1 text water_pattern = Some v"
  shows "\<exists>c t. v = Str (c # t) \<and> isDigit c"
proof -
  from match1_SomeD [OF assms] obtain pv s m where
    m: "m \<in> set (matches water_pattern (pv, s, None))" and v: "v = group1 m" by blast
  obtain pv' s' g' where m_eq: "m = (pv', s', g')" by (cases m)
  have "\<exists>w\<in>lang (Seq (Plus digit) (Opt (Seq (chr_i 0x2E) (Plus digit)))). \<exists>u\<in>lang (Seq (Star space)
        (Alt (Seq (lit_i ''litre'') (Opt (chr_i 0x73)))
          (Alt (Seq (lit_i ''liter'') (Opt (chr_i 0x73)))
               (Seq (chr_i 0x6C) WordB)))).
          s = w @ u @ s' \<and> g' = Some w"
    by (rule matches_Group_then [OF _ m [unfolded m_eq water_pattern_def]])
       (simp add: space_def lit_i_def chr_i_def Opt_def)
  then obtain w where w: "w \<in> lang (Seq (Plus digit) (Opt (Seq (chr_i 0x2E) (Plus digit))))"
    and g': "g' = Some w" by blast
  from lang_Plus_first [OF w [unfolded digit_def]] obtain c t where "w = c # t" "isDigit c" by blast
  with v g' m_eq show ?thesis by (simp add: group1_def)
qed

lemma amount_capture_digit:
  assumes "match1 text amount_pattern = Some v"
  shows "\<exists>c t. v = Str (c # t) \<and> isDigit c"
proof -
  from match1_SomeD [OF assms] obtain pv s m where
    m: "m \<in> set (matches amount_pattern (pv, s, None))" and v: "v = group1 m" by blast
  obtain pv' s' g' where m_eq: "m = (pv', s', g')" by (cases m)
  from matches_SeqD [OF m [unfolded amount_pattern_def]] obtain m1 where
    r: "m \<in> set (matches (Seq (Star space)
        (Group (Seq (Plus digit)
                 (Seq (Star (Seq (chr_i 0x2C) (Plus digit)))
                      (Opt (Seq (chr_i 0x2E) (Plus digit))))))) m1)" by blast
  obtain pv1 s1 g1 where m1_eq: "m1 = (pv1, s1, g1)" by (cases m1)
  from matches_then_Group [OF r [unfolded m_eq m1_eq]]
  obtain w where w: "w \<in> lang (Seq (Plus digit)
                 (Seq (Star (Seq (chr_i 0x2C) (Plus digit)))
                      (Opt (Seq (chr_i 0x2E) (Plus digit)))))"
    and g': "g' = Some w" by blast
  from lang_Plus_first [OF w [unfolded digit_def]] obtain c t where "w = c # t" "isDigit c" by blast
  with v g' m_eq show ?thesis by (simp add: group1_def)
qed

lemma date_capture:
  assumes "match1 text date_pattern = Some v"
  shows "\<exists>w. v = Str w"
proof -
  from match1_SomeD [OF assms] obtain pv s m where
    m: "m \<in> set (matches date_pattern (pv, s, None))" and v: "v = group1 m" by blast
  obtain pv' s' g' where m_eq: "m = (pv', s', g')" by (cases m)
  from matches_Group [OF m [unfolded m_eq date_pattern_def]] obtain w where "g' = Some w" by blast
  with v m_eq show ?thesis by (simp add: group1_def)
qed

lemma extractKeyFields_eq: "extractKeyFields text = Inr (extracted_of text)"
proof -
  have a: "match1 text amount_pattern = None \<or> (\<exists>w. match1 text amount_pattern = Some (Str w))"
    using amount_capture_digit [of "text"] by (cases "match1 text amount_pattern") auto
  show ?thesis
    using a
    by (auto simp: extractKeyFields_def extracted_of_def Let_def replaceCommas_def parseFloatArg_def
        fun_eq_iff split: option.splits)
qed

lemma Rep_1_2: "Rep (Suc 0) 2 r = Seq r (Opt (Seq r Eps))"
  by (simp add: eval_nat_numeral)

lemma Rep_2_4: "Rep 2 4 r = Seq r (Seq r (Opt (Seq r (Opt (Seq r Eps)))))"
  by (simp add: eval_nat_numeral)

text \<open>Rules that evaluate \<open>extractKeyFields\<close> on a concrete text.\<close>

lemmas extract_eval = extracted_of_def Rep_1_2 Rep_2_4 lit_simps match1_def search.simps
  matches.simps(5)
  energy_pattern_def water_pattern_def amount_pattern_def date_pattern_def date_sep_def
  Plus_def Opt_def digit_def space_def chr_i_def lit_i_def
  isDigit_def isSpace_def isWordChar_def canonicalize_def
  parseFloat_def parseFloatArg_def natVal_def digitVal_def exponentPart_def
  numberValue_numeral numberValue_numeral_half numberValue_zero negateNumber_def

lemma randomOffset_nonneg:
  assumes "0 \<le> r" "0 \<le> n" "0 \<le> k" "randomOffset r n k = Num x"
  shows "0 \<le> x"
proof -
  have "0 \<le> r * of_int n" using assms by simp
  hence "0 \<le> \<lfloor>r * of_int n\<rfloor>" by simp
  with assms(3,4) show ?thesis by (auto simp: randomOffset_def)
qed

lemma processDocument_nonneg:
  assumes "env_ok e" "processDocument file e k = Some (Num x)"
  shows "0 \<le> x"
proof -
  from assms(1) have r: "0 \<le> random1 e" "0 \<le> random2 e" by (simp_all add: env_ok_def)
  have h1: "\<And>n j. randomOffset (random1 e) n j = Num x \<Longrightarrow> 0 \<le> n \<Longrightarrow> 0 \<le> j \<Longrightarrow> 0 \<le> x"
    using randomOffset_nonneg [OF r(1)] by blast
  have h2: "\<And>n j. randomOffset (random2 e) n j = Num x \<Longrightarrow> 0 \<le> n \<Longrightarrow> 0 \<le> j \<Longrightarrow> 0 \<le> x"
    using randomOffset_nonneg [OF r(2)] by blast
  from assms(2) show ?thesis
    by (auto simp: processDocument_def Let_def split: if_splits dest: h1 h2)
qed

lemma extracted_of_values:
  assumes "extracted_of text k = Some v"
  shows "(\<exists>x. v = Num x \<and> 0 \<le> x) \<or> v = PosInfinity \<or> (\<exists>w. v = Str w)"
proof -
  consider (e) "k = ''energyUsage''" | (w) "k = ''waterConsumption''" | (a) "k = ''amount''"
    | (d) "k = ''billDate''"
    | (o) "k \<noteq> ''energyUsage''" "k \<noteq> ''waterConsumption''" "k \<noteq> ''amount''" "k \<noteq> ''billDate''"
    by blast
  then show ?thesis
  proof cases
    case e
    with assms obtain g where g: "match1 text energy_pattern = Some g" "v = parseFloatArg g"
      by (auto simp: extracted_of_def)
    from energy_capture_digit [OF g(1)] obtain c t where "g = Str (c # t)" "isDigit c" by blast
    with g(2) parseFloat_digit_first [of c t] show ?thesis by (auto simp: parseFloatArg_def)
  next
    case w
    with assms obtain g where g: "match1 text water_pattern = Some g" "v = parseFloatArg g"
      by (auto simp: extracted_of_def)
    from water_capture_digit [OF g(1)] obtain c t where "g = Str (c # t)" "isDigit c" by blast
    with g(2) parseFloat_digit_first [of c t] show ?thesis by (auto simp: parseFloatArg_def)
  next
    case a
    with assms obtain g where g: "match1 text amount_pattern = Some (Str g)"
      "v = parseFloat (filter (\<lambda>c. c \<noteq> 0x2C) g)"
      by (auto simp: extracted_of_def split: option.splits jsvalue.splits)
    from amount_capture_digit [OF g(1)] obtain c t where ct: "g = c # t" "isDigit c" by blast
    hence "filter (\<lambda>c. c \<noteq> 0x2C) g = c # filter (\<lambda>c. c \<noteq> 0x2C) t"
      using isDigit_not_punct [of c] by simp
    with g(2) ct(2) parseFloat_digit_first [of c "filter (\<lambda>c. c \<noteq> 0x2C) t"] show ?thesis by auto
  next
    case d
    with assms have "match1 text date_pattern = Some v" by (simp add: extracted_of_def)
    from date_capture [OF this] show ?thesis by blast
  next
    case o
    with assms show ?thesis by (simp add: extracted_of_def)
  qed
qed

text \<open>A quantity and an amount that are rounded on the way into the object.\<close>

lemma extractKeyFields_rounds:
  "extractKeyFields (lit ''9007199254740993 kWh'')
     = Inr [''energyUsage'' \<mapsto> Num 9007199254740992]"
proof -
  have "extracted_of (lit ''9007199254740993 kWh'')
          = [''energyUsage'' \<mapsto> parseFloat (lit ''9007199254740993'')]"
    by (simp add: fun_eq_iff extracted_of_def Rep_1_2 Rep_2_4 lit_simps match1_def search.simps
        matches.simps(5) energy_pattern_def water_pattern_def amount_pattern_def
        date_pattern_def date_sep_def Plus_def Opt_def digit_def space_def chr_i_def lit_i_def
        isDigit_def isSpace_def isWordChar_def canonicalize_def parseFloatArg_def)
  thus ?thesis by (simp add: extractKeyFields_eq parseFloat_rounds)
qed

lemma extractKeyFields_amount_rounds:
  "extractKeyFields (lit ''Rs. 9,007,199,254,740,993'')
     = Inr [''amount'' \<mapsto> Num 9007199254740992]"
proof -
  have "extracted_of (lit ''Rs. 9,007,199,254,740,993'')
          = [''amount'' \<mapsto> parseFloat (lit ''9007199254740993'')]"
    by (simp add: fun_eq_iff extracted_of_def Rep_1_2 Rep_2_4 lit_simps match1_def search.simps
        matches.simps(5) energy_pattern_def water_pattern_def amount_pattern_def
        date_pattern_def date_sep_def Plus_def Opt_def digit_def space_def chr_i_def lit_i_def
        isDigit_def isSpace_def isWordChar_def canonicalize_def parseFloatArg_def)
  thus ?thesis by (simp add: extractKeyFields_eq parseFloat_rounds)
qed

text \<open>
  C9.  Every number in a document returned by \<open>processDocument\<close> (for random draws
  in \<open>[0, 1)\<close>) is non-negative.  \<open>extractKeyFields\<close> returns an object for every text,
  every number in it is non-negative, and no property of it is \<open>NaN\<close>,
  \<open>undefined\<close> or negative infinity: group 1 of each pattern begins with a digit, so
  \<open>parseFloat\<close> reads an unsigned numeral (whose Number value is a non-negative
  binary64 number or positive infinity).
\<close>

theorem populated_numbers_nonneg:
  "(env_ok e \<longrightarrow> (\<forall>k x. processDocument file e k = Some (Num x) \<longrightarrow> 0 \<le> x))
   \<and> (\<exists>ob. extractKeyFields text = Inr ob
         \<and> (\<forall>k x. ob k = Some (Num x) \<longrightarrow> 0 \<le> x)
         \<and> (\<forall>k. ob k \<noteq> Some NaN \<and> ob k \<noteq> Some Undefined)
         \<and> (\<forall>k. ob k \<noteq> Some NegInfinity))"
proof -
  have p: "env_ok e \<longrightarrow> (\<forall>k x. processDocument file e k = Some (Num x) \<longrightarrow> 0 \<le> x)"
    using processDocument_nonneg by blast
  have x: "\<forall>k x. extracted_of text k = Some (Num x) \<longrightarrow> 0 \<le> x"
    using extracted_of_values by fastforce
  have y: "\<forall>k. extracted_of text k \<noteq> Some NaN \<and> extracted_of text k \<noteq> Some Undefined"
    using extracted_of_values by fastforce
  have z: "\<forall>k. extracted_of text k \<noteq> Some NegInfinity"
    using extracted_of_values by fastforce
  from p x y z show ?thesis by (simp add: extractKeyFields_eq)
qed

theorem populated_numbers_nonneg_witness:
  "env_ok sample_env
   \<and> processDocument mseb_file sample_env ''amount'' = Some (Num 3250) \<and> (0::real) \<le> 3250
   \<and> (\<exists>ob. extractKeyFields (lit ''Rs. 3,250'') = Inr ob \<and> ob ''amount'' = Some (Num 3250))"
proof -
  have e: "env_ok sample_env" by (simp add: sample_env_def env_ok_def)
  have a: "processDocument mseb_file sample_env ''amount'' = Some (Num 3250)"
    by (simp add: mseb_file_def sample_env_def processDocument_eval)
  have b: "extracted_of (lit ''Rs. 3,250'') ''amount'' = Some (Num 3250)"
    by (simp add: extract_eval)
  from populated_numbers_nonneg [of sample_env mseb_file "lit ''Rs. 3,250''"] e a b
  show ?thesis by (simp add: extractKeyFields_eq)
qed

text \<open>
  C10.  For every text \<open>extractKeyFields\<close> returns an object whose properties are among
  \<open>energyUsage\<close>, \<open>waterConsumption\<close>, \<open>amount\<close> and \<open>billDate\<close>; it has no
  \<open>billType\<close>, \<open>vendor\<close>, \<open>fuelConsumption\<close> or \<open>wasteGeneration\<close>.  Hence
  overriding any document \<open>doc\<close> with the extracted properties leaves its \<open>billType\<close>
  and \<open>vendor\<close> as they were.
\<close>

theorem extractKeyFields_frame:
  "\<exists>ob. extractKeyFields text = Inr ob
     \<and> dom ob \<subseteq> {''energyUsage'', ''waterConsumption'', ''amount'', ''billDate''}
     \<and> ob ''billType'' = None \<and> ob ''vendor'' = None
     \<and> ob ''fuelConsumption'' = None \<and> ob ''wasteGeneration'' = None
     \<and> (doc ++ ob) ''billType'' = doc ''billType''
     \<and> (doc ++ ob) ''vendor'' = doc ''vendor''"
proof -
  have d: "dom (extracted_of text) \<subseteq> {''energyUsage'', ''waterConsumption'', ''amount'', ''billDate''}"
    by (auto simp: extracted_of_def dom_def split: if_splits)
  have n: "extracted_of text ''billType'' = None" "extracted_of text ''vendor'' = None"
    "extracted_of text ''fuelConsumption'' = None" "extracted_of text ''wasteGeneration'' = None"
    by (simp_all add: extracted_of_def)
  from d n show ?thesis by (simp add: extractKeyFields_eq map_add_def)
qed

lemma of_int_ne_half: "real_of_int n * 2 \<noteq> 491"
proof
  assume "real_of_int n * 2 = 491"
  hence "real_of_int (n * 2) = real_of_int 491" by simp
  hence "n * 2 = 491" by (simp only: of_int_eq_iff)
  thus False by presburger
qed

text \<open>
  C3 (as stated, refuted).  For the file \<open>mseb_bill.jpg\<close> (whatever its content), the
  draws 0.5 and 0.25 and the clock at 15 November 2024, \<open>processDocument\<close> does not
  return the document of the example: \<open>energyUsage\<close> is 450, \<open>billDate\<close> is
  \<open>2024-11-15\<close>, and there is no \<open>confidence\<close>.
\<close>

theorem mseb_bill_counterexample:
  "\<not> (processDocument mseb_file sample_env ''energyUsage'' = Some (Num 245.5)
       \<and> processDocument mseb_file sample_env ''amount'' = Some (Num 3250)
       \<and> processDocument mseb_file sample_env ''billDate'' = Some (Str (lit ''15/11/2024''))
       \<and> (\<exists>c. processDocument mseb_file sample_env ''confidence'' = Some (Num c)))"
  by (simp add: mseb_file_def sample_env_def processDocument_eval)

text \<open>
  C3 (amended).  For the file name \<open>mseb_bill.jpg\<close>, \<open>processDocument\<close> returns
  \<open>billType\<close> \<open>electricity\<close> and the vendor \<open>Maharashtra State Electricity Board\<close>;
  \<open>energyUsage\<close> is a whole number from 200 to 699 (never 245.5), \<open>amount\<close> a whole
  number from 2000 to 6999, \<open>billDate\<close> the date part of the clock, and there is no
  \<open>confidence\<close>: the text of the document is not consulted.  It is \<open>extractKeyFields\<close>
  that, on the text \<open>245.5 kWh Rs. 3,250 15/11/2024\<close>, yields \<open>energyUsage\<close> 245.5,
  \<open>amount\<close> 3250 and \<open>billDate\<close> \<open>15/11/2024\<close>, and nothing else.
\<close>

theorem mseb_bill_example:
  assumes "env_ok e" and "name file = lit ''mseb_bill.jpg''"
  shows "processDocument file e ''billType'' = Some (Str (lit ''electricity''))
    \<and> processDocument file e ''vendor'' = Some (Str (lit ''Maharashtra State Electricity Board''))
    \<and> (\<exists>n. processDocument file e ''energyUsage'' = Some (Num (of_int n)) \<and> 200 \<le> n \<and> n < 700)
    \<and> processDocument file e ''energyUsage'' \<noteq> Some (Num 245.5)
    \<and> (\<exists>n. processDocument file e ''amount'' = Some (Num (of_int n)) \<and> 2000 \<le> n \<and> n < 7000)
    \<and> processDocument file e ''billDate'' = Some (Str (splitT0 (isoNow e)))
    \<and> processDocument file e ''confidence'' = None
    \<and> extractKeyFields (lit ''245.5 kWh Rs. 3,250 15/11/2024'')
        = Inr [''energyUsage'' \<mapsto> Num 245.5, ''amount'' \<mapsto> Num 3250,
               ''billDate'' \<mapsto> Str (lit ''15/11/2024'')]"
proof -
  from assms(1) have r: "0 \<le> random1 e" "random1 e < 1" "0 \<le> random2 e" "random2 e < 1"
    by (simp_all add: env_ok_def)
  from randomOffset_range [OF r(1,2), of 500 200]
  obtain n where n: "randomOffset (random1 e) 500 200 = Num (of_int n)" "200 \<le> n" "n < 700"
    by auto
  from randomOffset_range [OF r(3,4), of 5000 2000]
  obtain m where m: "randomOffset (random2 e) 5000 2000 = Num (of_int m)" "2000 \<le> m" "m < 7000"
    by auto
  have k: "includes_str (toLowerCase (name file)) (lit ''mseb'')"
    by (simp add: assms(2) toLowerCase_def lowerUnit_def lit_simps)
  have d: "processDocument file e =
        [''billType'' \<mapsto> Str (lit ''electricity''),
         ''energyUsage'' \<mapsto> Num (of_int n),
         ''amount'' \<mapsto> Num (of_int m),
         ''billDate'' \<mapsto> Str (splitT0 (isoNow e)),
         ''vendor'' \<mapsto> Str (lit ''Maharashtra State Electricity Board'')]"
    using k by (simp add: processDocument_def Let_def n m)
  have en: "\<exists>n. processDocument file e ''energyUsage'' = Some (Num (of_int n)) \<and> 200 \<le> n \<and> n < 700"
    using n by (intro exI[of _ n]) (simp add: d)
  have am: "\<exists>n. processDocument file e ''amount'' = Some (Num (of_int n)) \<and> 2000 \<le> n \<and> n < 7000"
    using m by (intro exI[of _ m]) (simp add: d)
  have x: "extracted_of (lit ''245.5 kWh Rs. 3,250 15/11/2024'')
        = [''energyUsage'' \<mapsto> Num 245.5, ''amount'' \<mapsto> Num 3250,
               ''billDate'' \<mapsto> Str (lit ''15/11/2024'')]"
    by (simp add: fun_eq_iff extract_eval)
  show ?thesis using en am x by (simp add: d of_int_ne_half extractKeyFields_eq)
qed

theorem mseb_bill_example_witness:
  "env_ok sample_env \<and> name mseb_file = lit ''mseb_bill.jpg''
   \<and> processDocument mseb_file sample_env ''billType'' = Some (Str (lit ''electricity''))
   \<and> processDocument mseb_file sample_env ''energyUsage'' = Some (Num 450)
   \<and> processDocument mseb_file sample_env ''amount'' = Some (Num 3250)
   \<and> processDocument mseb_file sample_env ''billDate'' = Some (Str (lit ''2024-11-15''))
   \<and> processDocument mseb_file sample_env ''confidence'' = None"
proof -
  have e: "env_ok sample_env" by (simp add: sample_env_def env_ok_def)
  have f: "name mseb_file = lit ''mseb_bill.jpg''" by (simp add: mseb_file_def)
  have v: "processDocument mseb_file sample_env ''energyUsage'' = Some (Num 450)"
     "processDocument mseb_file sample_env ''amount'' = Some (Num 3250)"
     "processDocument mseb_file sample_env ''billDate'' = Some (Str (lit ''2024-11-15''))"
    by (simp_all add: mseb_file_def sample_env_def processDocument_eval)
  from mseb_bill_example [OF e f] e f v show ?thesis by simp
qed

section \<open>The energy pattern: results\<close>

lemma canonicalize_lower:
  assumes "0x61 \<le> c" "c \<le> 0x7A"
  shows "canonicalize c = c - 0x20" "0x41 \<le> c - 0x20" "c - 0x20 \<le> 0x5A"
proof -
  from assms show "canonicalize c = c - 0x20" by (simp add: canonicalize_def)
  from assms(1) have l: "0x20 \<le> c" by (simp add: word_le_nat_alt)
  have u: "unat (c - 0x20) = unat c - 32" using unat_sub [OF l] by simp
  from assms show "0x41 \<le> c - 0x20" "c - 0x20 \<le> 0x5A"
    by (simp_all add: word_le_nat_alt u)
qed

lemma canonicalize_other: "\<not> (0x61 \<le> c \<and> c \<le> 0x7A) \<Longrightarrow> canonicalize c = c"
  by (simp add: canonicalize_def)

lemma canonicalize_eq_nonletter:
  assumes "\<not> (0x41 \<le> k \<and> k \<le> 0x5A)" "\<not> (0x61 \<le> k \<and> k \<le> 0x7A)"
  shows "canonicalize c = k \<longleftrightarrow> c = k"
proof (cases "0x61 \<le> c \<and> c \<le> 0x7A")
  case True
  with canonicalize_lower [of c] assms show ?thesis by auto
next
  case False
  thus ?thesis by (auto simp: canonicalize_def)
qed

lemma canonicalize_dot: "canonicalize c = 0x2E \<longleftrightarrow> c = 0x2E"
  by (rule canonicalize_eq_nonletter) simp_all

lemma canonicalize_comma: "canonicalize c = 0x2C \<longleftrightarrow> c = 0x2C"
  by (rule canonicalize_eq_nonletter) simp_all

lemma canonicalize_rupee: "canonicalize c = 0x20B9 \<longleftrightarrow> c = 0x20B9"
  by (rule canonicalize_eq_nonletter) simp_all

lemma canonicalize_digit: "isDigit c \<Longrightarrow> canonicalize c = c"
  by (rule canonicalize_other) (auto simp: isDigit_def word_le_nat_alt)

lemma canonicalize_isDigit: "isDigit (canonicalize c) \<longleftrightarrow> isDigit c"
proof (cases "0x61 \<le> c \<and> c \<le> 0x7A")
  case True
  with canonicalize_lower [of c] show ?thesis by (auto simp: isDigit_def word_le_nat_alt)
next
  case False
  thus ?thesis by (auto simp: canonicalize_def)
qed

lemma canonicalize_isSpace: "isSpace c \<Longrightarrow> canonicalize c = c"
  by (rule canonicalize_other) (auto simp: isSpace_def word_le_nat_alt)

lemma lang_Star_Chars: "lang (Star (Chars p)) = {w. list_all p w}"
proof (intro set_eqI iffI)
  fix w assume "w \<in> lang (Star (Chars p))"
  then obtain ws where ws: "w = concat ws" "set ws \<subseteq> {[c] | c. p c}" by auto
  from ws(2) have "list_all p (concat ws)"
    by (induction ws) auto
  with ws(1) show "w \<in> {w. list_all p w}" by simp
next
  fix w assume "w \<in> {w. list_all p w}"
  hence a: "list_all p w" by simp
  have "w = concat (map (\<lambda>c. [c]) w)" by (induction w) simp_all
  moreover have "set (map (\<lambda>c. [c]) w) \<subseteq> {[c] | c. p c}" using a by (induction w) auto
  ultimately show "w \<in> lang (Star (Chars p))" unfolding lang.simps by blast
qed

declare lang.simps(5) [simp del]

lemma lang_Plus_Chars: "lang (Plus (Chars p)) = {w. w \<noteq> [] \<and> list_all p w}"
proof (intro set_eqI iffI)
  fix w assume "w \<in> lang (Plus (Chars p))"
  then obtain c v where "w = [c] @ v" "p c" "v \<in> lang (Star (Chars p))"
    by (auto simp: Plus_def)
  thus "w \<in> {w. w \<noteq> [] \<and> list_all p w}" by (simp add: lang_Star_Chars)
next
  fix w assume "w \<in> {w. w \<noteq> [] \<and> list_all p w}"
  then obtain c v where w: "w = c # v" "p c" "list_all p v" by (cases w) auto
  hence "v \<in> lang (Star (Chars p))" by (simp add: lang_Star_Chars)
  with w have "\<exists>u v'. w = u @ v' \<and> u \<in> lang (Chars p) \<and> v' \<in> lang (Star (Chars p))"
    by (intro exI[of _ "[c]"] exI[of _ v]) simp
  thus "w \<in> lang (Plus (Chars p))" by (simp add: Plus_def)
qed

lemma lang_digits: "lang (Plus digit) = {w. is_digits w}"
  by (simp add: digit_def lang_Plus_Chars is_digits_def)

lemma lang_spaces: "lang (Star space) = {w. list_all isSpace w}"
  by (simp add: space_def lang_Star_Chars)

lemma lang_Opt: "lang (Opt r) = lang r \<union> {[]}"
  by (simp add: Opt_def)

lemma lang_chr_i: "lang (chr_i k) = {[c] | c. canonicalize c = canonicalize k}"
  by (simp add: chr_i_def)

lemma lit_i_Cons: "lit_i (x # k) = Seq (chr_i (of_char x)) (lit_i k)"
  by (simp add: lit_i_def)

lemma lang_lit_i: "lang (lit_i k) = {u. same_ignoring_case u k}"
proof (induction k)
  case Nil
  show ?case by (simp add: lit_i_def same_ignoring_case_def lit_simps)
next
  case (Cons x k)
  show ?case
  proof (intro set_eqI iffI)
    fix w assume "w \<in> lang (lit_i (x # k))"
    then obtain c v where "w = c # v" "canonicalize c = canonicalize (of_char x)"
      "same_ignoring_case v k"
      using Cons.IH by (auto simp: lit_i_Cons lang_chr_i)
    thus "w \<in> {u. same_ignoring_case u (x # k)}"
      by (simp add: same_ignoring_case_def lit_simps)
  next
    fix w assume "w \<in> {u. same_ignoring_case u (x # k)}"
    then obtain c v where w: "w = c # v" "canonicalize c = canonicalize (of_char x)"
      "same_ignoring_case v k"
      by (auto simp: same_ignoring_case_def lit_simps Cons_eq_map_conv)
    hence "\<exists>u v'. w = u @ v' \<and> u \<in> lang (chr_i (of_char x)) \<and> v' \<in> lang (lit_i k)"
      using Cons.IH by (intro exI[of _ "[c]"] exI[of _ v]) (simp add: lang_chr_i)
    thus "w \<in> lang (lit_i (x # k))" by (simp add: lit_i_Cons)
  qed
qed

lemma lang_dot: "lang (chr_i 0x2E) = {[0x2E]}"
proof -
  have k: "canonicalize (0x2E :: codeunit) = 0x2E" by (simp add: canonicalize_def)
  show ?thesis by (auto simp: lang_chr_i k canonicalize_dot)
qed

lemma lang_comma: "lang (chr_i 0x2C) = {[0x2C]}"
proof -
  have k: "canonicalize (0x2C :: codeunit) = 0x2C" by (simp add: canonicalize_def)
  show ?thesis by (auto simp: lang_chr_i k canonicalize_comma)
qed

lemma lang_rupee: "lang (chr_i 0x20B9) = {[0x20B9]}"
proof -
  have k: "canonicalize (0x20B9 :: codeunit) = 0x20B9" by (simp add: canonicalize_def)
  show ?thesis by (auto simp: lang_chr_i k canonicalize_rupee)
qed

lemma in_lang_fraction:
  "f \<in> lang (Opt (Seq (chr_i 0x2E) (Plus digit))) \<longleftrightarrow> f = [] \<or> (\<exists>fp. is_digits fp \<and> f = 0x2E # fp)"
proof -
  have "f \<in> lang (Seq (chr_i 0x2E) (Plus digit)) \<longleftrightarrow> (\<exists>fp. is_digits fp \<and> f = 0x2E # fp)"
    by (simp add: lang_dot lang_digits) blast
  thus ?thesis by (simp only: lang_Opt Un_iff singleton_iff) blast
qed

lemma in_lang_number:
  "w \<in> lang (Seq (Plus digit) (Opt (Seq (chr_i 0x2E) (Plus digit)))) \<longleftrightarrow> is_number w"
proof
  assume "w \<in> lang (Seq (Plus digit) (Opt (Seq (chr_i 0x2E) (Plus digit))))"
  then obtain ip f where w: "w = ip @ f" "ip \<in> lang (Plus digit)"
     "f \<in> lang (Opt (Seq (chr_i 0x2E) (Plus digit)))"
    unfolding lang.simps(3) by blast
  from w(2) have ip: "is_digits ip" by (simp add: lang_digits)
  from w(3) have "f = [] \<or> (\<exists>fp. is_digits fp \<and> f = 0x2E # fp)" by (simp only: in_lang_fraction)
  thus "is_number w"
  proof
    assume "f = []" with w(1) ip show ?thesis by (simp add: is_number_def)
  next
    assume "\<exists>fp. is_digits fp \<and> f = 0x2E # fp"
    then obtain fp where "is_digits fp" "f = 0x2E # fp" by blast
    with w(1) ip show ?thesis unfolding is_number_def by blast
  qed
next
  assume "is_number w"
  then consider "is_digits w" | ip fp where "is_digits ip" "is_digits fp" "w = ip @ 0x2E # fp"
    unfolding is_number_def by blast
  then have "\<exists>ip f. w = ip @ f \<and> ip \<in> lang (Plus digit)
                \<and> f \<in> lang (Opt (Seq (chr_i 0x2E) (Plus digit)))"
  proof cases
    case 1
    show ?thesis
      by (intro exI[of _ w] exI[of _ "[]"]) (simp add: 1 lang_digits in_lang_fraction)
  next
    case 2
    show ?thesis
      by (intro exI[of _ ip] exI[of _ "0x2E # fp"]) (simp add: 2 lang_digits in_lang_fraction)
  qed
  thus "w \<in> lang (Seq (Plus digit) (Opt (Seq (chr_i 0x2E) (Plus digit))))"
    unfolding lang.simps(3) by blast
qed

lemma same_ignoring_case_length: "same_ignoring_case u k \<Longrightarrow> length u = length k"
  unfolding same_ignoring_case_def lit_def
  by (drule map_eq_imp_length_eq) simp

lemma same_ignoring_case_append:
  assumes "length u = length k"
  shows "same_ignoring_case (u @ v) (k @ l) \<longleftrightarrow> same_ignoring_case u k \<and> same_ignoring_case v l"
  using assms by (simp add: same_ignoring_case_def lit_def)

lemma lang_energy_unit:
  "lang (Alt (lit_i ''kwh'') (Alt (lit_i ''kw'') (Seq (lit_i ''unit'') (Opt (chr_i 0x73)))))
     = {u. is_energy_unit u}"
proof -
  have s: "lang (chr_i 0x73) = {u. same_ignoring_case u ''s''}"
    using lang_lit_i [of "''s''"] by (simp add: lit_i_def)
  have "lang (Seq (lit_i ''unit'') (Opt (chr_i 0x73)))
      = {u. same_ignoring_case u ''unit'' \<or> same_ignoring_case u ''units''}"
  proof (intro set_eqI iffI)
    fix w assume "w \<in> lang (Seq (lit_i ''unit'') (Opt (chr_i 0x73)))"
    then obtain u v where w: "w = u @ v" "same_ignoring_case u ''unit''"
      "v = [] \<or> same_ignoring_case v ''s''"
      unfolding lang.simps(3) lang_lit_i lang_Opt s by blast
    from w(2) have l: "length u = length ''unit''" by (rule same_ignoring_case_length)
    from w(3) show "w \<in> {u. same_ignoring_case u ''unit'' \<or> same_ignoring_case u ''units''}"
    proof
      assume "v = []" with w show ?thesis by simp
    next
      assume "same_ignoring_case v ''s''"
      with w(2) same_ignoring_case_append [OF l, of v "''s''"]
      have "same_ignoring_case (u @ v) ''units''" by simp
      with w(1) show ?thesis by simp
    qed
  next
    fix w assume "w \<in> {u. same_ignoring_case u ''unit'' \<or> same_ignoring_case u ''units''}"
    hence "same_ignoring_case w ''unit'' \<or> same_ignoring_case w ''units''" by simp
    thus "w \<in> lang (Seq (lit_i ''unit'') (Opt (chr_i 0x73)))"
    proof
      assume "same_ignoring_case w ''unit''"
      hence "\<exists>u v. w = u @ v \<and> u \<in> lang (lit_i ''unit'') \<and> v \<in> lang (Opt (chr_i 0x73))"
        by (intro exI[of _ w] exI[of _ "[]"]) (simp add: lang_lit_i lang_Opt)
      thus ?thesis unfolding lang.simps(3) by blast
    next
      assume a: "same_ignoring_case w ''units''"
      hence "length w = 5" by (drule_tac same_ignoring_case_length) simp
      hence w: "length (take 4 w) = length ''unit''" by simp
      from a have "same_ignoring_case (take 4 w @ drop 4 w) (''unit'' @ ''s'')" by simp
      with same_ignoring_case_append [OF w, of "drop 4 w" "''s''"]
      have "same_ignoring_case (take 4 w) ''unit''" "same_ignoring_case (drop 4 w) ''s''" by blast+
      hence "\<exists>u v. w = u @ v \<and> u \<in> lang (lit_i ''unit'') \<and> v \<in> lang (Opt (chr_i 0x73))"
        by (intro exI[of _ "take 4 w"] exI[of _ "drop 4 w"]) (simp add: lang_lit_i lang_Opt s)
      thus ?thesis unfolding lang.simps(3) by blast
    qed
  qed
  thus ?thesis unfolding lang.simps(4) lang_lit_i is_energy_unit_def by blast
qed

lemma in_lang_tail:
  "v \<in> lang (Seq (Star space)
        (Alt (lit_i ''kwh'') (Alt (lit_i ''kw'') (Seq (lit_i ''unit'') (Opt (chr_i 0x73))))))
    \<longleftrightarrow> (\<exists>ws u. v = ws @ u \<and> list_all isSpace ws \<and> is_energy_unit u)"
  unfolding lang.simps(3) lang_spaces lang_energy_unit by blast

lemma in_lang_energy_pattern:
  "w \<in> lang energy_pattern
     \<longleftrightarrow> (\<exists>num ws u. w = num @ ws @ u \<and> is_number num \<and> list_all isSpace ws \<and> is_energy_unit u)"
proof
  assume "w \<in> lang energy_pattern"
  then obtain num v where w: "w = num @ v"
    "num \<in> lang (Seq (Plus digit) (Opt (Seq (chr_i 0x2E) (Plus digit))))"
    "v \<in> lang (Seq (Star space)
        (Alt (lit_i ''kwh'') (Alt (lit_i ''kw'') (Seq (lit_i ''unit'') (Opt (chr_i 0x73))))))"
    unfolding energy_pattern_def lang.simps(3) [of "Group _"] lang.simps(6) by blast
  from w(3) obtain ws u where "v = ws @ u" "list_all isSpace ws" "is_energy_unit u"
    unfolding in_lang_tail by blast
  with w(1,2) show "\<exists>num ws u. w = num @ ws @ u \<and> is_number num \<and> list_all isSpace ws \<and> is_energy_unit u"
    unfolding in_lang_number by blast
next
  assume "\<exists>num ws u. w = num @ ws @ u \<and> is_number num \<and> list_all isSpace ws \<and> is_energy_unit u"
  then obtain num ws u where w: "w = num @ ws @ u" "is_number num" "list_all isSpace ws"
    "is_energy_unit u" by blast
  from w(3,4) have v: "ws @ u \<in> lang (Seq (Star space)
        (Alt (lit_i ''kwh'') (Alt (lit_i ''kw'') (Seq (lit_i ''unit'') (Opt (chr_i 0x73))))))"
    unfolding in_lang_tail by blast
  from w(2) have n: "num \<in> lang (Seq (Plus digit) (Opt (Seq (chr_i 0x2E) (Plus digit))))"
    unfolding in_lang_number .
  show "w \<in> lang energy_pattern"
    unfolding energy_pattern_def lang.simps(3) [of "Group _"] lang.simps(6)
    using w(1) n v by blast
qed

lemma is_digits_Cons: "is_digits w \<Longrightarrow> \<exists>c t. w = c # t \<and> isDigit c \<and> list_all isDigit t"
  by (cases w) (auto simp: is_digits_def)

lemma takeWhile_all: "list_all p xs \<Longrightarrow> takeWhile p (xs @ ys) = xs @ takeWhile p ys"
  by (induction xs) auto

lemma dropWhile_all: "list_all p xs \<Longrightarrow> dropWhile p (xs @ ys) = dropWhile p ys"
  by (induction xs) auto

lemma digits_no_dot: "list_all isDigit xs \<Longrightarrow> list_all (\<lambda>c. c \<noteq> 0x2E) xs"
  by (induction xs) (auto simp: isDigit_def)

lemma not_isDigit_dot: "\<not> isDigit 0x2E"
  by (simp add: isDigit_def)

lemma parseFloat_integer_form:
  assumes "dropWhile isSpace s = s" "s \<noteq> []" "hd s \<noteq> 0x2D" "hd s \<noteq> 0x2B"
    and "takeWhile isDigit s = s" "dropWhile isDigit s = []"
    and "\<not> startsWith s (lit ''Infinity'')"
  shows "parseFloat s = numberValue (real (natVal s))"
  unfolding parseFloat_def Let_def
  by (simp add: assms exponentPart_def natVal_def)

lemma parseFloat_fraction_form:
  assumes "dropWhile isSpace s = s" "s \<noteq> []" "hd s \<noteq> 0x2D" "hd s \<noteq> 0x2B"
    and "takeWhile isDigit s = ip" "ip \<noteq> []" "dropWhile isDigit s = 0x2E # fp"
    and "takeWhile isDigit fp = fp" "dropWhile isDigit fp = []"
    and "\<not> startsWith s (lit ''Infinity'')"
  shows "parseFloat s = numberValue (real (natVal ip) + real (natVal fp) / 10 ^ length fp)"
  unfolding parseFloat_def Let_def
  by (simp add: assms exponentPart_def)

lemma parseFloat_digits:
  assumes "is_digits w"
  shows "parseFloat w = numberValue (real (natVal w))"
proof -
  from is_digits_Cons [OF assms] obtain c t where w: "w = c # t" "isDigit c" "list_all isDigit t"
    by blast
  hence a: "list_all isDigit w" by simp
  from w have sp: "dropWhile isSpace w = w" by (simp add: isDigit_not_isSpace)
  from w isDigit_not_punct [of c] have sg: "w \<noteq> []" "hd w \<noteq> 0x2D" "hd w \<noteq> 0x2B" by simp_all
  from a have tk: "takeWhile isDigit w = w" "dropWhile isDigit w = []"
    using takeWhile_all [of isDigit w "[]"] dropWhile_all [of isDigit w "[]"] by simp_all
  from w have inf: "\<not> startsWith w (lit ''Infinity'')" by (simp add: isDigit_not_I)
  show ?thesis by (rule parseFloat_integer_form [OF sp sg tk inf])
qed

lemma parseFloat_fraction:
  assumes "is_digits ip" "is_digits fp"
  shows "parseFloat (ip @ 0x2E # fp)
           = numberValue (real (natVal ip) + real (natVal fp) / 10 ^ length fp)"
proof -
  let ?w = "ip @ 0x2E # fp"
  from is_digits_Cons [OF assms(1)] obtain c t where ip: "ip = c # t" "isDigit c" "list_all isDigit t"
    by blast
  hence a: "list_all isDigit ip" by simp
  from assms(1) have ne: "ip \<noteq> []" by (simp add: is_digits_def)
  from assms(2) have b: "list_all isDigit fp" by (simp add: is_digits_def)
  from ip have sp: "dropWhile isSpace ?w = ?w" by (simp add: isDigit_not_isSpace)
  from ip isDigit_not_punct [of c] have sg: "?w \<noteq> []" "hd ?w \<noteq> 0x2D" "hd ?w \<noteq> 0x2B" by simp_all
  have tk: "takeWhile isDigit ?w = ip" "dropWhile isDigit ?w = 0x2E # fp"
    using a by (simp_all add: takeWhile_all dropWhile_all not_isDigit_dot)
  have tf: "takeWhile isDigit fp = fp" "dropWhile isDigit fp = []"
    using takeWhile_all [OF b, of "[]"] dropWhile_all [OF b, of "[]"] by simp_all
  from ip have inf: "\<not> startsWith ?w (lit ''Infinity'')" by (simp add: isDigit_not_I)
  show ?thesis by (rule parseFloat_fraction_form [OF sp sg tk(1) ne tk(2) tf inf])
qed

lemma decimal_value_digits:
  assumes "is_digits w"
  shows "decimal_value w = real (natVal w)"
proof -
  from assms have "list_all (\<lambda>c. c \<noteq> 0x2E) w" by (simp add: is_digits_def digits_no_dot)
  hence t: "takeWhile (\<lambda>c. c \<noteq> 0x2E) w = w" using takeWhile_all [of _ w "[]"] by simp
  show ?thesis unfolding decimal_value_def Let_def t by (simp add: natVal_def)
qed

lemma decimal_value_fraction:
  assumes "is_digits ip"
  shows "decimal_value (ip @ 0x2E # fp) = real (natVal ip) + real (natVal fp) / 10 ^ length fp"
proof -
  from assms have "list_all (\<lambda>c. c \<noteq> 0x2E) ip" by (simp add: is_digits_def digits_no_dot)
  hence t: "takeWhile (\<lambda>c. c \<noteq> 0x2E) (ip @ 0x2E # fp) = ip" by (simp add: takeWhile_all)
  show ?thesis unfolding decimal_value_def Let_def t by simp
qed

lemma decimal_value_nonneg: "0 \<le> decimal_value w"
  by (simp add: decimal_value_def Let_def)

lemma parseFloat_number:
  assumes "is_number w"
  shows "parseFloat w = numberValue (decimal_value w)"
proof -
  from assms consider (int) "is_digits w"
    | (frac) ip fp where "is_digits ip" "is_digits fp" "w = ip @ 0x2E # fp"
    unfolding is_number_def by blast
  then show ?thesis
  proof cases
    case int
    with parseFloat_digits [OF int] decimal_value_digits [OF int] show ?thesis by simp
  next
    case frac
    with parseFloat_fraction [OF frac(1,2)] decimal_value_fraction [OF frac(1), of fp]
    show ?thesis by simp
  qed
qed

lemma no_wordb_energy: "no_wordb energy_pattern"
  by (simp add: energy_pattern_def Plus_def Opt_def digit_def space_def chr_i_def lit_i_def)

lemma matches_nonempty_iff:
  assumes "no_wordb r"
  shows "matches r (pv, s, g) \<noteq> [] \<longleftrightarrow> (\<exists>w s'. s = w @ s' \<and> w \<in> lang r)"
proof
  assume "matches r (pv, s, g) \<noteq> []"
  then obtain m where "m \<in> set (matches r (pv, s, g))" by (cases "matches r (pv, s, g)") auto
  moreover obtain pv' s' g' where "m = (pv', s', g')" by (cases m)
  ultimately have "(pv', s', g') \<in> set (matches r (pv, s, g))" by simp
  from matches_sound [OF this] show "\<exists>w s'. s = w @ s' \<and> w \<in> lang r" by blast
next
  assume "\<exists>w s'. s = w @ s' \<and> w \<in> lang r"
  then obtain w s' where "s = w @ s'" "w \<in> lang r" by blast
  with matches_complete [OF assms, of w s' pv g] show "matches r (pv, s, g) \<noteq> []" by auto
qed

lemma energy_match_at_matches:
  "i \<le> length text \<Longrightarrow>
   (\<exists>num. energy_match_at text i num) \<longleftrightarrow> matches energy_pattern (pv, drop i text, None) \<noteq> []"
proof -
  assume i: "i \<le> length text"
  have "(\<exists>num. energy_match_at text i num)
      \<longleftrightarrow> (\<exists>w s'. drop i text = w @ s' \<and> w \<in> lang energy_pattern)"
  proof
    assume "\<exists>num. energy_match_at text i num"
    then obtain num ws u post where a: "drop i text = num @ ws @ u @ post" "is_number num"
      "list_all isSpace ws" "is_energy_unit u" unfolding energy_match_at_def by blast
    hence "num @ ws @ u \<in> lang energy_pattern" unfolding in_lang_energy_pattern by blast
    moreover from a(1) have "drop i text = (num @ ws @ u) @ post" by simp
    ultimately show "\<exists>w s'. drop i text = w @ s' \<and> w \<in> lang energy_pattern" by blast
  next
    assume "\<exists>w s'. drop i text = w @ s' \<and> w \<in> lang energy_pattern"
    then obtain w s' where w: "drop i text = w @ s'" "w \<in> lang energy_pattern" by blast
    from w(2) obtain num ws u where b: "w = num @ ws @ u" "is_number num" "list_all isSpace ws"
      "is_energy_unit u" unfolding in_lang_energy_pattern by blast
    from w(1) b(1) have "drop i text = num @ ws @ u @ s'" by simp
    with b i have "energy_match_at text i num" unfolding energy_match_at_def by blast
    thus "\<exists>num. energy_match_at text i num" ..
  qed
  thus ?thesis by (simp only: matches_nonempty_iff [OF no_wordb_energy])
qed

lemma energy_hd_capture:
  assumes "matches energy_pattern (pv, s, None) = m # ms"
  shows "\<exists>num ws u post. group1 m = Str num \<and> s = num @ ws @ u @ post
            \<and> is_number num \<and> list_all isSpace ws \<and> is_energy_unit u"
proof -
  obtain pv' s' g' where m_eq: "m = (pv', s', g')" by (cases m)
  from assms m_eq have m: "(pv', s', g') \<in> set (matches energy_pattern (pv, s, None))" by simp
  have "\<exists>w\<in>lang (Seq (Plus digit) (Opt (Seq (chr_i 0x2E) (Plus digit)))). \<exists>v\<in>lang (Seq (Star space)
        (Alt (lit_i ''kwh'') (Alt (lit_i ''kw'') (Seq (lit_i ''unit'') (Opt (chr_i 0x73)))))).
          s = w @ v @ s' \<and> g' = Some w"
    by (rule matches_Group_then [OF _ m [unfolded energy_pattern_def]])
       (simp add: space_def lit_i_def chr_i_def Opt_def)
  then obtain w v where w: "w \<in> lang (Seq (Plus digit) (Opt (Seq (chr_i 0x2E) (Plus digit))))"
    and wv': "s = w @ v @ s'" "g' = Some w"
    and v: "v \<in> lang (Seq (Star space)
        (Alt (lit_i ''kwh'') (Alt (lit_i ''kw'') (Seq (lit_i ''unit'') (Opt (chr_i 0x73))))))"
    by blast
  from w have "is_number w" unfolding in_lang_number .
  note wv = this wv'
  from v obtain ws u where "v = ws @ u" "list_all isSpace ws" "is_energy_unit u"
    unfolding in_lang_tail by blast
  with wv m_eq show ?thesis by (intro exI[of _ w] exI[of _ ws] exI[of _ u] exI[of _ s']) (simp add: group1_def)
qed

lemma energy_search_None:
  assumes "match1 text energy_pattern = None"
  shows "\<not> (\<exists>i num. energy_match_at text i num)"
proof
  assume "\<exists>i num. energy_match_at text i num"
  then obtain i num where e: "energy_match_at text i num" by blast
  hence i: "i \<le> length text" by (simp add: energy_match_at_def)
  from e energy_match_at_matches [OF i, of "prevAt None (take i text)"]
  have ne: "matches energy_pattern (prevAt None (take i text), drop i text, None) \<noteq> []" by blast
  have "text = take i text @ drop i text" by simp
  with assms [unfolded match1_def search_None_iff] ne show False by blast
qed

lemma energy_search_Some:
  assumes "match1 text energy_pattern = Some v"
  shows "\<exists>i num. v = Str num \<and> first_energy_match text i num"
proof -
  from search_SomeD [OF assms [unfolded match1_def]] obtain pre s2 m ms where
    p: "text = pre @ s2" "matches energy_pattern (prevAt None pre, s2, None) = m # ms" "v = group1 m"
    and mn: "\<forall>pre' s3. text = pre' @ s3 \<and> length pre' < length pre
              \<longrightarrow> matches energy_pattern (prevAt None pre', s3, None) = []"
    by blast
  from energy_hd_capture [OF p(2)] obtain num ws u post where
    c: "group1 m = Str num" "s2 = num @ ws @ u @ post" "is_number num" "list_all isSpace ws"
       "is_energy_unit u" by blast
  from p(1) have d: "drop (length pre) text = s2" "length pre \<le> length text" by simp_all
  have em: "energy_match_at text (length pre) num"
    unfolding energy_match_at_def using c d by blast
  have "\<forall>j num'. energy_match_at text j num' \<longrightarrow> length pre \<le> j"
  proof (intro allI impI)
    fix j num' assume e: "energy_match_at text j num'"
    show "length pre \<le> j"
    proof (rule ccontr)
      assume "\<not> length pre \<le> j"
      hence lt: "j < length pre" by simp
      hence j: "j \<le> length text" using d(2) by simp
      from e energy_match_at_matches [OF j, of "prevAt None (take j text)"]
      have ne: "matches energy_pattern (prevAt None (take j text), drop j text, None) \<noteq> []" by blast
      have "text = take j text @ drop j text \<and> length (take j text) < length pre"
        using lt j by simp
      with mn ne show False by blast
    qed
  qed
  with em have "first_energy_match text (length pre) num" by (simp add: first_energy_match_def)
  with p(3) c(1) show ?thesis by auto
qed

lemma is_number_chars: "is_number w \<Longrightarrow> c \<in> set w \<Longrightarrow> isDigit c \<or> c = 0x2E"
  by (auto simp: is_number_def is_digits_def list_all_iff)

lemma is_number_nonempty: "is_number w \<Longrightarrow> w \<noteq> []"
  by (auto simp: is_number_def is_digits_def)

lemma same_ignoring_case_hd:
  "same_ignoring_case u (k # ks) \<Longrightarrow> u \<noteq> [] \<and> canonicalize (hd u) = canonicalize (of_char k)"
  by (cases u) (auto simp: same_ignoring_case_def lit_simps)

lemma energy_unit_hd:
  assumes "is_energy_unit u"
  shows "u \<noteq> [] \<and> \<not> isDigit (hd u) \<and> hd u \<noteq> 0x2E \<and> \<not> isSpace (hd u)"
proof -
  from assms have "u \<noteq> [] \<and> (canonicalize (hd u) = 0x4B \<or> canonicalize (hd u) = 0x55)"
    unfolding is_energy_unit_def
    by (auto dest!: same_ignoring_case_hd simp: canonicalize_def)
  moreover have "isDigit (hd u) \<Longrightarrow> canonicalize (hd u) \<noteq> 0x4B \<and> canonicalize (hd u) \<noteq> 0x55"
    using canonicalize_digit [of "hd u"] by (auto simp: isDigit_def)
  moreover have "hd u = 0x2E \<Longrightarrow> canonicalize (hd u) \<noteq> 0x4B \<and> canonicalize (hd u) \<noteq> 0x55"
    by (simp add: canonicalize_def)
  moreover have "isSpace (hd u) \<Longrightarrow> canonicalize (hd u) \<noteq> 0x4B \<and> canonicalize (hd u) \<noteq> 0x55"
    using canonicalize_isSpace [of "hd u"] by (auto simp: isSpace_def)
  ultimately show ?thesis by blast
qed

lemma not_isSpace_dot: "\<not> isSpace 0x2E"
  by (simp add: isSpace_def)

lemma after_number_hd:
  assumes "list_all isSpace ws" "is_energy_unit u"
  shows "ws @ u @ post \<noteq> [] \<and> \<not> isDigit (hd (ws @ u @ post)) \<and> hd (ws @ u @ post) \<noteq> 0x2E"
proof (cases ws)
  case Nil
  with energy_unit_hd [OF assms(2)] show ?thesis by (cases u) auto
next
  case (Cons x xs)
  with assms(1) have "isSpace x" by simp
  with Cons isDigit_not_isSpace [of x] not_isSpace_dot show ?thesis by auto
qed

lemma number_prefix_unique:
  assumes "is_number n" "is_number n'" "n @ r = n' @ r'"
    and "r \<noteq> [] \<and> \<not> isDigit (hd r) \<and> hd r \<noteq> 0x2E"
    and "r' \<noteq> [] \<and> \<not> isDigit (hd r') \<and> hd r' \<noteq> 0x2E"
  shows "n = n'"
proof -
  from assms(3) obtain x where "(n = n' @ x \<and> x @ r = r') \<or> (n @ x = n' \<and> r = x @ r')"
    by (auto simp: append_eq_append_conv2)
  then show ?thesis
  proof
    assume a: "n = n' @ x \<and> x @ r = r'"
    show ?thesis
    proof (cases x)
      case Nil with a show ?thesis by simp
    next
      case (Cons c t)
      with a have "c \<in> set n" "hd r' = c" by auto
      with is_number_chars [OF assms(1)] assms(5) show ?thesis by blast
    qed
  next
    assume a: "n @ x = n' \<and> r = x @ r'"
    show ?thesis
    proof (cases x)
      case Nil with a show ?thesis by simp
    next
      case (Cons c t)
      with a have "c \<in> set n'" "hd r = c" by auto
      with is_number_chars [OF assms(2)] assms(4) show ?thesis by blast
    qed
  qed
qed

lemma energy_match_unique:
  assumes "energy_match_at text i num" "energy_match_at text i num'"
  shows "num = num'"
proof -
  from assms(1) obtain ws u post where a: "drop i text = num @ ws @ u @ post" "is_number num"
    "list_all isSpace ws" "is_energy_unit u" unfolding energy_match_at_def by blast
  from assms(2) obtain ws' u' post' where b: "drop i text = num' @ ws' @ u' @ post'" "is_number num'"
    "list_all isSpace ws'" "is_energy_unit u'" unfolding energy_match_at_def by blast
  from a(1) b(1) have e: "num @ (ws @ u @ post) = num' @ (ws' @ u' @ post')" by simp
  show ?thesis
    by (rule number_prefix_unique [OF a(2) b(2) e after_number_hd [OF a(3,4)] after_number_hd [OF b(3,4)]])
qed

text \<open>
  C5.  For every text \<open>extractKeyFields\<close> returns an object in which \<open>energyUsage\<close>
  is absent exactly when the text contains no number followed (after white space or none)
  by one of the unit tokens \<open>kwh\<close>, \<open>kw\<close>, \<open>unit\<close>, \<open>units\<close> in any
  letter case.  Whenever there is such a match there is a first one, and for the first
  match (its number is unique) \<open>energyUsage\<close> is the Number value of its number: the
  binary64 number nearest to its decimal value, which is that decimal value itself
  whenever it is a binary64 number.  It is never a default.
\<close>

theorem extractKeyFields_energyUsage:
  "\<exists>ob. extractKeyFields text = Inr ob
     \<and> (ob ''energyUsage'' = None \<longleftrightarrow> \<not> (\<exists>i num. energy_match_at text i num))
     \<and> ((\<exists>i num. energy_match_at text i num) \<longrightarrow> (\<exists>i num. first_energy_match text i num))
     \<and> (\<forall>i num. first_energy_match text i num
           \<longrightarrow> ob ''energyUsage'' = Some (numberValue (decimal_value num))
               \<and> (is_binary64 (decimal_value num)
                    \<longrightarrow> ob ''energyUsage'' = Some (Num (decimal_value num))))"
proof (cases "match1 text energy_pattern")
  case None
  from energy_search_None [OF None] have n: "\<not> (\<exists>i num. energy_match_at text i num)" .
  hence "\<forall>i num. \<not> first_energy_match text i num" by (simp add: first_energy_match_def)
  moreover from None have "extracted_of text ''energyUsage'' = None" by (simp add: extracted_of_def)
  ultimately show ?thesis using n by (simp add: extractKeyFields_eq)
next
  case (Some v)
  from energy_search_Some [OF Some] obtain i num where
    v: "v = Str num" and f: "first_energy_match text i num" by blast
  from f have em: "energy_match_at text i num" by (simp add: first_energy_match_def)
  have mn: "\<And>j num'. energy_match_at text j num' \<Longrightarrow> i \<le> j"
    using f unfolding first_energy_match_def by blast
  from em have "is_number num" by (auto simp: energy_match_at_def)
  hence pf: "parseFloat num = numberValue (decimal_value num)" by (rule parseFloat_number)
  from Some v pf have val: "extracted_of text ''energyUsage'' = Some (numberValue (decimal_value num))"
    by (simp add: extracted_of_def parseFloatArg_def)
  have u: "\<forall>i' num'. first_energy_match text i' num'
             \<longrightarrow> extracted_of text ''energyUsage'' = Some (numberValue (decimal_value num'))
                 \<and> (is_binary64 (decimal_value num')
                      \<longrightarrow> extracted_of text ''energyUsage'' = Some (Num (decimal_value num')))"
  proof (intro allI impI)
    fix i' num' assume f': "first_energy_match text i' num'"
    hence em': "energy_match_at text i' num'" by (simp add: first_energy_match_def)
    have mn': "\<And>j n. energy_match_at text j n \<Longrightarrow> i' \<le> j"
      using f' unfolding first_energy_match_def by blast
    from mn [OF em'] mn' [OF em] have "i' = i" by simp
    with em em' have "num' = num" using energy_match_unique by blast
    with val numberValue_exact [OF _ decimal_value_nonneg, of num']
    show "extracted_of text ''energyUsage'' = Some (numberValue (decimal_value num'))
                 \<and> (is_binary64 (decimal_value num')
                      \<longrightarrow> extracted_of text ''energyUsage'' = Some (Num (decimal_value num')))"
      by simp
  qed
  have e: "\<exists>i num. energy_match_at text i num" using em by blast
  have fe: "\<exists>i num. first_energy_match text i num" using f by blast
  have a1: "extractKeyFields text = Inr (extracted_of text)" by (rule extractKeyFields_eq)
  have a2: "extracted_of text ''energyUsage'' = None \<longleftrightarrow> \<not> (\<exists>i num. energy_match_at text i num)"
    using val e by simp
  have a3: "(\<exists>i num. energy_match_at text i num) \<longrightarrow> (\<exists>i num. first_energy_match text i num)"
    using fe by simp
  show ?thesis
    by (rule exI[of _ "extracted_of text"]) (intro conjI a1 a2 a3 u)
qed

theorem extractKeyFields_energyUsage_witness:
  "(\<exists>ob. extractKeyFields energy_text = Inr ob \<and> ob ''energyUsage'' = Some (Num 12))
   \<and> (\<exists>i num. first_energy_match energy_text i num
         \<and> numberValue (decimal_value num) = Num 12)"
proof -
  have ev: "extracted_of energy_text ''energyUsage'' = Some (Num 12)"
    by (simp add: energy_text_def extract_eval)
  obtain ob where h: "extractKeyFields energy_text = Inr ob
     \<and> (ob ''energyUsage'' = None \<longleftrightarrow> \<not> (\<exists>i num. energy_match_at energy_text i num))
     \<and> ((\<exists>i num. energy_match_at energy_text i num) \<longrightarrow> (\<exists>i num. first_energy_match energy_text i num))
     \<and> (\<forall>i num. first_energy_match energy_text i num
           \<longrightarrow> ob ''energyUsage'' = Some (numberValue (decimal_value num))
               \<and> (is_binary64 (decimal_value num)
                    \<longrightarrow> ob ''energyUsage'' = Some (Num (decimal_value num))))"
    using extractKeyFields_energyUsage [of energy_text] by (rule exE) (rule that)
  from h have ob: "extractKeyFields energy_text = Inr ob" by (rule conjunct1)
  from h have iff: "ob ''energyUsage'' = None \<longleftrightarrow> \<not> (\<exists>i num. energy_match_at energy_text i num)"
    by (elim conjE)
  from h have ex: "(\<exists>i num. energy_match_at energy_text i num) \<longrightarrow> (\<exists>i num. first_energy_match energy_text i num)"
    by (elim conjE)
  from h have val: "\<forall>i num. first_energy_match energy_text i num
           \<longrightarrow> ob ''energyUsage'' = Some (numberValue (decimal_value num))
               \<and> (is_binary64 (decimal_value num)
                    \<longrightarrow> ob ''energyUsage'' = Some (Num (decimal_value num)))"
    by (elim conjE)
  from ob have o: "ob = extracted_of energy_text" by (simp add: extractKeyFields_eq)
  with ev iff ex obtain i num where f: "first_energy_match energy_text i num" by auto
  with val o ev have "numberValue (decimal_value num) = Num 12" by auto
  with f o ob ev show ?thesis by blast
qed

section \<open>The amount pattern: results\<close>

lemma same_ignoring_case_dot: "same_ignoring_case f ''.'' \<longleftrightarrow> f = [0x2E]"
proof -
  have k: "canonicalize (0x2E :: codeunit) = 0x2E" by (simp add: canonicalize_def)
  show ?thesis
    by (cases f) (auto simp: same_ignoring_case_def lit_simps k canonicalize_dot)
qed

lemma in_lang_marker:
  "m \<in> lang (Alt (chr_i 0x20B9) (Alt (Seq (lit_i ''rs'') (Opt (chr_i 0x2E))) (lit_i ''inr'')))
     \<longleftrightarrow> is_currency_marker m"
proof -
  have "m \<in> lang (Seq (lit_i ''rs'') (Opt (chr_i 0x2E)))
      \<longleftrightarrow> same_ignoring_case m ''rs'' \<or> same_ignoring_case m ''rs.''"
  proof
    assume "m \<in> lang (Seq (lit_i ''rs'') (Opt (chr_i 0x2E)))"
    then obtain u f where w: "m = u @ f" "same_ignoring_case u ''rs''" "f = [] \<or> f = [0x2E]"
      unfolding lang.simps(3) lang_lit_i lang_Opt lang_dot by blast
    from w(2) have l: "length u = length ''rs''" by (rule same_ignoring_case_length)
    from w(3) show "same_ignoring_case m ''rs'' \<or> same_ignoring_case m ''rs.''"
    proof
      assume "f = []" with w show ?thesis by simp
    next
      assume "f = [0x2E]"
      hence "same_ignoring_case f ''.''" by (simp add: same_ignoring_case_dot)
      with w(2) same_ignoring_case_append [OF l, of f "''.''"]
      have "same_ignoring_case (u @ f) ''rs.''" by simp
      with w(1) show ?thesis by simp
    qed
  next
    assume "same_ignoring_case m ''rs'' \<or> same_ignoring_case m ''rs.''"
    then have "\<exists>u f. m = u @ f \<and> u \<in> lang (lit_i ''rs'') \<and> f \<in> lang (Opt (chr_i 0x2E))"
    proof
      assume "same_ignoring_case m ''rs''"
      thus ?thesis by (intro exI[of _ m] exI[of _ "[]"]) (simp add: lang_lit_i lang_Opt)
    next
      assume a: "same_ignoring_case m ''rs.''"
      hence "length m = 3" by (drule_tac same_ignoring_case_length) simp
      hence l: "length (take 2 m) = length ''rs''" by simp
      from a have "same_ignoring_case (take 2 m @ drop 2 m) (''rs'' @ ''.'')" by simp
      with same_ignoring_case_append [OF l, of "drop 2 m" "''.''"]
      have t: "same_ignoring_case (take 2 m) ''rs''" "same_ignoring_case (drop 2 m) ''.''" by blast+
      have e: "m = take 2 m @ drop 2 m" by simp
      from t(1) have p1: "take 2 m \<in> lang (lit_i ''rs'')" by (simp add: lang_lit_i)
      from t(2) have p2: "drop 2 m \<in> lang (Opt (chr_i 0x2E))"
        by (simp add: lang_Opt lang_dot same_ignoring_case_dot)
      from e p1 p2 show ?thesis by blast
    qed
    thus "m \<in> lang (Seq (lit_i ''rs'') (Opt (chr_i 0x2E)))" unfolding lang.simps(3) by blast
  qed
  thus ?thesis
    unfolding lang.simps(4) Un_iff lang_rupee lang_lit_i is_currency_marker_def by blast
qed

lemma in_lang_comma_group:
  "x \<in> lang (Seq (chr_i 0x2C) (Plus digit)) \<longleftrightarrow> (\<exists>ds. is_digits ds \<and> x = 0x2C # ds)"
  unfolding lang.simps(3) lang_comma lang_digits by auto

lemma in_lang_comma_groups:
  "v \<in> lang (Star (Seq (chr_i 0x2C) (Plus digit)))
     \<longleftrightarrow> (\<exists>gs. list_all is_digits gs \<and> v = concat (map ((#) 0x2C) gs))"
proof
  assume "v \<in> lang (Star (Seq (chr_i 0x2C) (Plus digit)))"
  then obtain ws where ws: "v = concat ws" "set ws \<subseteq> lang (Seq (chr_i 0x2C) (Plus digit))"
    unfolding lang.simps(5) by blast
  from ws(2) have "\<exists>gs. list_all is_digits gs \<and> ws = map ((#) 0x2C) gs"
  proof (induction ws)
    case Nil
    show ?case by (intro exI[of _ "[]"]) simp
  next
    case (Cons x ws)
    from Cons.prems have "x \<in> lang (Seq (chr_i 0x2C) (Plus digit))" by simp
    then obtain ds where ds: "is_digits ds" "x = 0x2C # ds" unfolding in_lang_comma_group by blast
    from Cons obtain gs where gs: "list_all is_digits gs" "ws = map ((#) 0x2C) gs" by auto
    show ?case using ds gs by (intro exI[of _ "ds # gs"]) simp
  qed
  with ws(1) show "\<exists>gs. list_all is_digits gs \<and> v = concat (map ((#) 0x2C) gs)" by blast
next
  assume "\<exists>gs. list_all is_digits gs \<and> v = concat (map ((#) 0x2C) gs)"
  then obtain gs where gs: "list_all is_digits gs" "v = concat (map ((#) 0x2C) gs)" by blast
  from gs(1) have "set (map ((#) 0x2C) gs) \<subseteq> lang (Seq (chr_i 0x2C) (Plus digit))"
    by (induction gs) (simp_all add: in_lang_comma_group del: lang.simps)
  with gs(2) show "v \<in> lang (Star (Seq (chr_i 0x2C) (Plus digit)))"
    unfolding lang.simps(5) by blast
qed

lemma in_lang_grouped_number:
  "w \<in> lang (Seq (Plus digit)
                 (Seq (Star (Seq (chr_i 0x2C) (Plus digit)))
                      (Opt (Seq (chr_i 0x2E) (Plus digit)))))
     \<longleftrightarrow> is_grouped_number w"
proof
  assume "w \<in> lang (Seq (Plus digit)
                 (Seq (Star (Seq (chr_i 0x2C) (Plus digit)))
                      (Opt (Seq (chr_i 0x2E) (Plus digit)))))"
  then obtain g r where a: "w = g @ r" "g \<in> lang (Plus digit)"
    "r \<in> lang (Seq (Star (Seq (chr_i 0x2C) (Plus digit))) (Opt (Seq (chr_i 0x2E) (Plus digit))))"
    unfolding lang.simps(3) [of "Plus digit"] by blast
  from a(3) obtain v f where b: "r = v @ f" "v \<in> lang (Star (Seq (chr_i 0x2C) (Plus digit)))"
    "f \<in> lang (Opt (Seq (chr_i 0x2E) (Plus digit)))"
    unfolding lang.simps(3) [of "Star _"] by blast
  from b(2) obtain gs where gs: "list_all is_digits gs" "v = concat (map ((#) 0x2C) gs)"
    unfolding in_lang_comma_groups by blast
  from b(3) have f: "f = [] \<or> (\<exists>fp. is_digits fp \<and> f = 0x2E # fp)" unfolding in_lang_fraction .
  from a(2) have g: "is_digits g" by (simp add: lang_digits)
  from a(1) b(1) gs(2) have "w = g @ concat (map ((#) 0x2C) gs) @ f" by simp
  with g gs(1) f show "is_grouped_number w" unfolding is_grouped_number_def by blast
next
  assume "is_grouped_number w"
  then obtain g gs f where a: "is_digits g" "list_all is_digits gs"
    "f = [] \<or> (\<exists>fp. is_digits fp \<and> f = 0x2E # fp)" "w = g @ concat (map ((#) 0x2C) gs) @ f"
    unfolding is_grouped_number_def by blast
  from a(2) have v: "concat (map ((#) 0x2C) gs) \<in> lang (Star (Seq (chr_i 0x2C) (Plus digit)))"
    unfolding in_lang_comma_groups by blast
  from a(3) have f: "f \<in> lang (Opt (Seq (chr_i 0x2E) (Plus digit)))" unfolding in_lang_fraction .
  from v f have r: "concat (map ((#) 0x2C) gs) @ f
      \<in> lang (Seq (Star (Seq (chr_i 0x2C) (Plus digit))) (Opt (Seq (chr_i 0x2E) (Plus digit))))"
    unfolding lang.simps(3) [of "Star _"] by blast
  from a(1) have g: "g \<in> lang (Plus digit)" by (simp add: lang_digits)
  from g r a(4) show "w \<in> lang (Seq (Plus digit)
                 (Seq (Star (Seq (chr_i 0x2C) (Plus digit)))
                      (Opt (Seq (chr_i 0x2E) (Plus digit)))))"
    unfolding lang.simps(3) [of "Plus digit"] by blast
qed

lemma in_lang_amount_pattern:
  "w \<in> lang amount_pattern
     \<longleftrightarrow> (\<exists>m ws num. w = m @ ws @ num \<and> is_currency_marker m \<and> list_all isSpace ws
                        \<and> is_grouped_number num)"
proof
  assume "w \<in> lang amount_pattern"
  then obtain m r where a: "w = m @ r"
    "m \<in> lang (Alt (chr_i 0x20B9) (Alt (Seq (lit_i ''rs'') (Opt (chr_i 0x2E))) (lit_i ''inr'')))"
    "r \<in> lang (Seq (Star space)
        (Group (Seq (Plus digit)
                 (Seq (Star (Seq (chr_i 0x2C) (Plus digit)))
                      (Opt (Seq (chr_i 0x2E) (Plus digit)))))))"
    unfolding amount_pattern_def lang.simps(3) [of "Alt _ _"] by blast
  from a(3) obtain ws num where b: "r = ws @ num" "ws \<in> lang (Star space)"
    "num \<in> lang (Seq (Plus digit)
                 (Seq (Star (Seq (chr_i 0x2C) (Plus digit)))
                      (Opt (Seq (chr_i 0x2E) (Plus digit)))))"
    unfolding lang.simps(3) [of "Star space"] lang.simps(6) by blast
  from a(2) have "is_currency_marker m" unfolding in_lang_marker .
  moreover from b(2) have "list_all isSpace ws" by (simp add: lang_spaces)
  moreover from b(3) have "is_grouped_number num" unfolding in_lang_grouped_number .
  ultimately show "\<exists>m ws num. w = m @ ws @ num \<and> is_currency_marker m \<and> list_all isSpace ws
                        \<and> is_grouped_number num" using a(1) b(1) by blast
next
  assume "\<exists>m ws num. w = m @ ws @ num \<and> is_currency_marker m \<and> list_all isSpace ws
                        \<and> is_grouped_number num"
  then obtain m ws num where a: "w = m @ ws @ num" "is_currency_marker m" "list_all isSpace ws"
    "is_grouped_number num" by blast
  from a(2) have m: "m \<in> lang (Alt (chr_i 0x20B9) (Alt (Seq (lit_i ''rs'') (Opt (chr_i 0x2E))) (lit_i ''inr'')))"
    unfolding in_lang_marker .
  from a(3) have ws: "ws \<in> lang (Star space)" by (simp add: lang_spaces)
  from a(4) have n: "num \<in> lang (Group (Seq (Plus digit)
                 (Seq (Star (Seq (chr_i 0x2C) (Plus digit)))
                      (Opt (Seq (chr_i 0x2E) (Plus digit))))))"
    unfolding lang.simps(6) in_lang_grouped_number .
  from ws n have r: "ws @ num \<in> lang (Seq (Star space)
        (Group (Seq (Plus digit)
                 (Seq (Star (Seq (chr_i 0x2C) (Plus digit)))
                      (Opt (Seq (chr_i 0x2E) (Plus digit)))))))"
    unfolding lang.simps(3) [of "Star space"] by blast
  from m r a(1) show "w \<in> lang amount_pattern"
    unfolding amount_pattern_def lang.simps(3) [of "Alt _ _"] by blast
qed

lemma no_wordb_amount: "no_wordb amount_pattern"
  by (simp add: amount_pattern_def Plus_def Opt_def digit_def space_def chr_i_def lit_i_def)

lemma skipGroup_length: "skipGroup k s = Some s' \<Longrightarrow> length s' < length s"
  by (auto simp: skipGroup_def less_Suc_eq_le le_SucI length_dropWhile_le
           split: list.splits if_splits)

declare skipGroups.simps [simp del]

lemma hd_concat_map:
  "concat (map f xs) = y # ys \<Longrightarrow> \<exists>x\<in>set xs. \<exists>zs. f x = y # zs"
proof (induction xs)
  case Nil
  then show ?case by simp
next
  case (Cons x xs)
  show ?case
  proof (cases "f x")
    case Nil
    with Cons show ?thesis by simp
  next
    case (Cons z zs)
    with Cons.prems show ?thesis by simp
  qed
qed

lemma matches_Seq_hd:
  "matches a st = m1 # ms1 \<Longrightarrow> matches b m1 = m # ms \<Longrightarrow> \<exists>ms'. matches (Seq a b) st = m # ms'"
  by simp

lemma matches_Seq_Nil: "matches a st = [] \<Longrightarrow> matches (Seq a b) st = []"
  by simp

lemma Star_Chars_hd:
  "\<exists>pv' ms. matches (Star (Chars p)) (pv, s, g) = (pv', dropWhile p s, g) # ms"
proof (induction s arbitrary: pv)
  case Nil
  show ?case by (subst matches.simps(5)) simp
next
  case (Cons c t)
  show ?case
  proof (cases "p c")
    case True
    from Cons [of "Some c"] obtain pv' ms where
      "matches (Star (Chars p)) (Some c, t, g) = (pv', dropWhile p t, g) # ms" by blast
    with True show ?thesis by (subst matches.simps(5)) simp
  next
    case False
    then show ?thesis by (subst matches.simps(5)) simp
  qed
qed

lemma Plus_Chars_hd:
  assumes "p c"
  shows "\<exists>pv' ms. matches (Plus (Chars p)) (pv, c # t, g) = (pv', dropWhile p t, g) # ms"
proof -
  from Star_Chars_hd [of p "Some c" t g] obtain pv' ms where
    "matches (Star (Chars p)) (Some c, t, g) = (pv', dropWhile p t, g) # ms" by blast
  with assms show ?thesis by (simp add: Plus_def)
qed

lemma Plus_Chars_none:
  assumes "s = [] \<or> \<not> p (hd s)"
  shows "matches (Plus (Chars p)) (pv, s, g) = []"
  using assms by (cases s) (simp_all add: Plus_def)

lemma sep_group_hd:
  assumes k: "\<And>c. (canonicalize c = canonicalize k) = (c = k)" and d: "isDigit d"
  shows "\<exists>pv' ms. matches (Seq (chr_i k) (Plus digit)) (pv, k # d # t, g)
           = (pv', dropWhile isDigit t, g) # ms"
proof -
  from Plus_Chars_hd [of isDigit d "Some k" t g] d obtain pv' ms where
    "matches (Plus digit) (Some k, d # t, g) = (pv', dropWhile isDigit t, g) # ms"
    by (auto simp: digit_def)
  thus ?thesis by (simp add: chr_i_def)
qed

lemma sep_group_none:
  assumes k: "\<And>c. (canonicalize c = canonicalize k) = (c = k)" and n: "skipGroup k s = None"
  shows "matches (Seq (chr_i k) (Plus digit)) (pv, s, g) = []"
proof (cases s)
  case Nil
  then show ?thesis by (simp add: chr_i_def)
next
  case (Cons c r)
  show ?thesis
  proof (cases "c = k")
    case False
    with Cons k show ?thesis by (simp add: chr_i_def)
  next
    case True
    with n Cons have "r = [] \<or> \<not> isDigit (hd r)"
      by (cases r) (auto simp: skipGroup_def split: if_splits)
    hence "matches (Plus digit) (Some k, r, g) = []"
      unfolding digit_def by (rule Plus_Chars_none)
    with Cons True k show ?thesis by (simp add: chr_i_def)
  qed
qed

lemma sep_group_some:
  assumes k: "\<And>c. (canonicalize c = canonicalize k) = (c = k)" and n: "skipGroup k s = Some s'"
  shows "\<exists>pv' ms. matches (Seq (chr_i k) (Plus digit)) (pv, s, g) = (pv', s', g) # ms"
proof -
  from n obtain d t where "s = k # d # t" "isDigit d" "s' = dropWhile isDigit t"
    by (auto simp: skipGroup_def split: list.splits if_splits)
  with sep_group_hd [OF k, of d pv t g] show ?thesis by simp
qed

lemma comma_canon: "(canonicalize c = canonicalize 0x2C) = (c = 0x2C)"
proof -
  have k: "canonicalize (0x2C :: codeunit) = 0x2C" by (simp add: canonicalize_def)
  show ?thesis by (simp add: k canonicalize_comma)
qed

lemma dot_canon: "(canonicalize c = canonicalize 0x2E) = (c = 0x2E)"
proof -
  have k: "canonicalize (0x2E :: codeunit) = 0x2E" by (simp add: canonicalize_def)
  show ?thesis by (simp add: k canonicalize_dot)
qed

lemma Star_groups_hd:
  "\<exists>pv' ms. matches (Star (Seq (chr_i 0x2C) (Plus digit))) (pv, s, g) = (pv', skipGroups s, g) # ms"
proof (induction s arbitrary: pv rule: skipGroups.induct)
  case (1 s)
  show ?case
  proof (cases "skipGroup 0x2C s")
    case None
    from sep_group_none [OF comma_canon None]
    have e: "matches (Seq (chr_i 0x2C) (Plus digit)) (pv, s, g) = []" .
    show ?thesis
      by (subst matches.simps(5)) (simp add: e None skipGroups.simps [of s] del: matches.simps(3))
  next
    case (Some s')
    from sep_group_some [OF comma_canon Some] obtain pv1 ms1 where
      m1: "matches (Seq (chr_i 0x2C) (Plus digit)) (pv, s, g) = (pv1, s', g) # ms1" by blast
    from "1.IH" [OF Some, of pv1] obtain pv' ms where
      m2: "matches (Star (Seq (chr_i 0x2C) (Plus digit))) (pv1, s', g) = (pv', skipGroups s', g) # ms"
      by blast
    from skipGroup_length [OF Some] have l: "length s' < length s" .
    show ?thesis
      by (subst matches.simps(5)) (simp add: m1 m2 l skipGroups.simps [of s] Some del: matches.simps(3))
  qed
qed

lemma Opt_frac_hd:
  "\<exists>pv' ms. matches (Opt (Seq (chr_i 0x2E) (Plus digit))) (pv, s, g) = (pv', skipFrac s, g) # ms"
proof (cases "skipGroup 0x2E s")
  case None
  from sep_group_none [OF dot_canon None]
  have e: "matches (Seq (chr_i 0x2E) (Plus digit)) (pv, s, g) = []" .
  show ?thesis by (simp add: e None Opt_def skipFrac_def del: matches.simps(3))
next
  case (Some s')
  from sep_group_some [OF dot_canon Some] obtain pv1 ms1 where
    e: "matches (Seq (chr_i 0x2E) (Plus digit)) (pv, s, g) = (pv1, s', g) # ms1" by blast
  show ?thesis by (simp add: e Some Opt_def skipFrac_def del: matches.simps(3))
qed

lemma grouped_number_hd:
  assumes "isDigit c"
  shows "\<exists>pv' ms. matches (Seq (Plus digit)
                 (Seq (Star (Seq (chr_i 0x2C) (Plus digit)))
                      (Opt (Seq (chr_i 0x2E) (Plus digit))))) (pv, c # t, g)
           = (pv', skipFrac (skipGroups (dropWhile isDigit t)), g) # ms"
proof -
  from Plus_Chars_hd [of isDigit c pv t g, OF assms] obtain pv1 ms1 where
    m1: "matches (Plus digit) (pv, c # t, g) = (pv1, dropWhile isDigit t, g) # ms1"
    by (auto simp: digit_def)
  from Star_groups_hd [of pv1 "dropWhile isDigit t" g] obtain pv2 ms2 where
    m2: "matches (Star (Seq (chr_i 0x2C) (Plus digit))) (pv1, dropWhile isDigit t, g)
           = (pv2, skipGroups (dropWhile isDigit t), g) # ms2" by blast
  from Opt_frac_hd [of pv2 "skipGroups (dropWhile isDigit t)" g] obtain pv3 ms3 where
    m3: "matches (Opt (Seq (chr_i 0x2E) (Plus digit))) (pv2, skipGroups (dropWhile isDigit t), g)
           = (pv3, skipFrac (skipGroups (dropWhile isDigit t)), g) # ms3" by blast
  from matches_Seq_hd [OF m2 m3] obtain ms4 where
    m4: "matches (Seq (Star (Seq (chr_i 0x2C) (Plus digit))) (Opt (Seq (chr_i 0x2E) (Plus digit))))
           (pv1, dropWhile isDigit t, g)
         = (pv3, skipFrac (skipGroups (dropWhile isDigit t)), g) # ms4" by blast
  from matches_Seq_hd [OF m1 m4] show ?thesis by blast
qed

lemma skipGroups_length: "length (skipGroups s) \<le> length s"
proof (induction s rule: skipGroups.induct)
  case (1 s)
  show ?case
  proof (cases "skipGroup 0x2C s")
    case None
    then show ?thesis by (simp add: skipGroups.simps [of s])
  next
    case (Some s')
    from "1.IH" [OF Some] skipGroup_length [OF Some] Some show ?thesis
      by (simp add: skipGroups.simps [of s])
  qed
qed

lemma skipFrac_length: "length (skipFrac s) \<le> length s"
proof (cases "skipGroup 0x2E s")
  case None
  then show ?thesis by (simp add: skipFrac_def)
next
  case (Some s')
  with skipGroup_length [OF Some] show ?thesis by (simp add: skipFrac_def)
qed

lemma scan_length: "length (skipFrac (skipGroups (dropWhile isDigit s))) \<le> length s"
proof -
  have "length (skipFrac (skipGroups (dropWhile isDigit s))) \<le> length (skipGroups (dropWhile isDigit s))"
    by (rule skipFrac_length)
  also have "\<dots> \<le> length (dropWhile isDigit s)" by (rule skipGroups_length)
  also have "\<dots> \<le> length s" by (rule length_dropWhile_le)
  finally show ?thesis .
qed

lemma not_isDigit_comma: "\<not> isDigit 0x2C"
  by (simp add: isDigit_def)

lemma skipGroups_comma_group:
  assumes "is_digits x"
  shows "skipGroups (0x2C # x @ Y) = skipGroups (dropWhile isDigit Y)"
proof -
  from is_digits_Cons [OF assms] obtain d x' where x: "x = d # x'" "isDigit d" "list_all isDigit x'"
    by blast
  hence "skipGroup 0x2C (0x2C # x @ Y) = Some (dropWhile isDigit Y)"
    by (simp add: skipGroup_def dropWhile_all)
  thus ?thesis by (simp add: skipGroups.simps [of "0x2C # x @ Y"])
qed

lemma scan_groups:
  assumes "list_all is_digits gs" and "f = [] \<or> (\<exists>fp. is_digits fp \<and> f = 0x2E # fp)"
  shows "length (skipFrac (skipGroups (dropWhile isDigit (concat (map ((#) 0x2C) gs) @ f @ r))))
           \<le> length r"
  using assms(1)
proof (induction gs)
  case Nil
  from assms(2) show ?case
  proof
    assume "f = []"
    thus ?thesis using scan_length [of r] by simp
  next
    assume "\<exists>fp. is_digits fp \<and> f = 0x2E # fp"
    then obtain fp where fp: "is_digits fp" "f = 0x2E # fp" by blast
    from is_digits_Cons [OF fp(1)] obtain d fp' where d: "fp = d # fp'" "isDigit d" "list_all isDigit fp'"
      by blast
    have a: "dropWhile isDigit (f @ r) = f @ r" using fp(2) by (simp add: not_isDigit_dot)
    have "skipGroup 0x2C (0x2E # fp @ r) = None"
      by (cases "fp @ r") (simp_all add: skipGroup_def)
    hence "skipGroups (0x2E # fp @ r) = 0x2E # fp @ r"
      by (simp add: skipGroups.simps [of "0x2E # fp @ r"])
    hence b: "skipGroups (f @ r) = f @ r" using fp(2) by simp
    have c: "skipFrac (f @ r) = dropWhile isDigit r"
      using fp(2) d by (simp add: skipFrac_def skipGroup_def dropWhile_all)
    show ?thesis by (simp add: a b c length_dropWhile_le)
  qed
next
  case (Cons x xs)
  from Cons.prems have x: "is_digits x" and xs: "list_all is_digits xs" by simp_all
  let ?Y = "concat (map ((#) 0x2C) xs) @ f @ r"
  have "dropWhile isDigit (concat (map ((#) 0x2C) (x # xs)) @ f @ r) = 0x2C # x @ ?Y"
    by (simp add: not_isDigit_comma)
  hence "skipGroups (dropWhile isDigit (concat (map ((#) 0x2C) (x # xs)) @ f @ r))
       = skipGroups (dropWhile isDigit ?Y)"
    by (simp only: skipGroups_comma_group [OF x])
  with Cons.IH [OF xs] show ?case by simp
qed

lemma grouped_longest:
  assumes "is_grouped_number w" "w @ r = c # t"
  shows "length (skipFrac (skipGroups (dropWhile isDigit t))) \<le> length r"
proof -
  from assms(1) obtain g gs f where a: "is_digits g" "list_all is_digits gs"
    "f = [] \<or> (\<exists>fp. is_digits fp \<and> f = 0x2E # fp)" "w = g @ concat (map ((#) 0x2C) gs) @ f"
    unfolding is_grouped_number_def by blast
  from is_digits_Cons [OF a(1)] obtain d g' where g: "g = d # g'" "isDigit d" "list_all isDigit g'"
    by blast
  from assms(2) a(4) g(1) have "t = g' @ concat (map ((#) 0x2C) gs) @ f @ r" by simp
  hence "dropWhile isDigit t = dropWhile isDigit (concat (map ((#) 0x2C) gs) @ f @ r)"
    using g(3) by (simp add: dropWhile_all)
  with scan_groups [OF a(2,3), of r] show ?thesis by simp
qed

lemma is_grouped_number_Cons: "is_grouped_number w \<Longrightarrow> \<exists>c t. w = c # t \<and> isDigit c"
  unfolding is_grouped_number_def by (auto dest!: is_digits_Cons)

lemma matches_Group_hd:
  assumes "matches (Group r) (pv, s, g) = m # ms"
  shows "\<exists>pv' s' g' ns. matches r (pv, s, g) = (pv', s', g') # ns
            \<and> m = (pv', s', Some (take (length s - length s') s))"
proof (cases "matches r (pv, s, g)")
  case Nil
  with assms show ?thesis by simp
next
  case (Cons n ns)
  obtain pv' s' g' where "n = (pv', s', g')" by (cases n)
  with Cons assms show ?thesis by simp
qed

lemma amount_hd_capture:
  assumes "matches amount_pattern (pv, s, None) = m # ms"
  shows "\<exists>mk ws num post. group1 m = Str num \<and> s = mk @ ws @ num @ post
            \<and> is_currency_marker mk \<and> list_all isSpace ws \<and> is_grouped_number num
            \<and> (\<forall>num' post'. num @ post = num' @ post' \<and> is_grouped_number num'
                  \<longrightarrow> length num' \<le> length num)"
proof -
  let ?M = "Alt (chr_i 0x20B9) (Alt (Seq (lit_i ''rs'') (Opt (chr_i 0x2E))) (lit_i ''inr''))"
  let ?N = "Seq (Plus digit)
                 (Seq (Star (Seq (chr_i 0x2C) (Plus digit)))
                      (Opt (Seq (chr_i 0x2E) (Plus digit))))"
  from assms have "concat (map (matches (Seq (Star space) (Group ?N))) (matches ?M (pv, s, None)))
      = m # ms" by (simp only: amount_pattern_def matches.simps(3))
  from hd_concat_map [OF this] obtain m1 zs where
    m1: "m1 \<in> set (matches ?M (pv, s, None))"
    and r1: "matches (Seq (Star space) (Group ?N)) m1 = m # zs" by blast
  obtain pv1 s1 g1 where m1_eq: "m1 = (pv1, s1, g1)" by (cases m1)
  from matches_sound [OF m1 [unfolded m1_eq]] obtain mk where mk: "mk \<in> lang ?M" "s = mk @ s1"
    by blast
  from r1 have "concat (map (matches (Group ?N)) (matches (Star space) m1)) = m # zs"
    by (simp only: matches.simps(3))
  from hd_concat_map [OF this] obtain m2 zs' where
    m2: "m2 \<in> set (matches (Star space) m1)"
    and r2: "matches (Group ?N) m2 = m # zs'" by blast
  obtain pv2 s2 g2 where m2_eq: "m2 = (pv2, s2, g2)" by (cases m2)
  from matches_sound [OF m2 [unfolded m1_eq m2_eq]] obtain ws where
    ws: "ws \<in> lang (Star space)" "s1 = ws @ s2" by blast
  from matches_Group_hd [OF r2 [unfolded m2_eq]] obtain pv' s' g' ns where
    n: "matches ?N (pv2, s2, g2) = (pv', s', g') # ns"
    and m_eq: "m = (pv', s', Some (take (length s2 - length s') s2))" by blast
  from n have "(pv', s', g') \<in> set (matches ?N (pv2, s2, g2))" by simp
  from matches_sound [OF this] obtain w where w: "w \<in> lang ?N" "s2 = w @ s'" by blast
  from w(1) have gw: "is_grouped_number w" unfolding in_lang_grouped_number .
  from is_grouped_number_Cons [OF gw] obtain c t0 where c: "w = c # t0" "isDigit c" by blast
  with w(2) have s2: "s2 = c # (t0 @ s')" by simp
  from grouped_number_hd [OF c(2), of pv2 "t0 @ s'" g2] n s2
  have s': "s' = skipFrac (skipGroups (dropWhile isDigit (t0 @ s')))" by auto
  have longest: "\<forall>num' post'. w @ s' = num' @ post' \<and> is_grouped_number num'
                  \<longrightarrow> length num' \<le> length w"
  proof (intro allI impI)
    fix num' post' assume a: "w @ s' = num' @ post' \<and> is_grouped_number num'"
    hence e: "num' @ post' = c # (t0 @ s')" using c(1) by simp
    from grouped_longest [OF _ e] a s' have "length s' \<le> length post'" by simp
    moreover from a have "length w + length s' = length num' + length post'"
      by (metis length_append)
    ultimately show "length num' \<le> length w" by simp
  qed
  from w(2) m_eq have g1: "group1 m = Str w" by (simp add: group1_def)
  from mk(1) have mm: "is_currency_marker mk" unfolding in_lang_marker .
  from ws(1) have sp: "list_all isSpace ws" by (simp add: lang_spaces)
  from mk(2) ws(2) w(2) have e: "s = mk @ ws @ w @ s'" by simp
  from g1 e mm sp gw longest show ?thesis by blast
qed

lemma same_ignoring_case_set:
  "same_ignoring_case m k \<Longrightarrow> c \<in> set m \<Longrightarrow> canonicalize c \<in> set (map canonicalize (lit k))"
  unfolding same_ignoring_case_def by (metis image_eqI set_map)

lemma marker_no_digit:
  assumes "is_currency_marker m" "c \<in> set m"
  shows "\<not> isDigit c"
proof -
  from assms consider "c = 0x20B9"
    | k where "k \<in> {''rs'', ''rs.'', ''inr''}" "canonicalize c \<in> set (map canonicalize (lit k))"
    unfolding is_currency_marker_def using same_ignoring_case_set by fastforce
  then show ?thesis
  proof cases
    case 1
    then show ?thesis by (simp add: isDigit_def)
  next
    case 2
    hence "\<not> isDigit (canonicalize c)"
      by (auto simp: lit_simps canonicalize_def isDigit_def)
    thus ?thesis by (simp add: canonicalize_isDigit)
  qed
qed

lemma space_no_digit: "list_all isSpace ws \<Longrightarrow> c \<in> set ws \<Longrightarrow> \<not> isDigit c"
  using isDigit_not_isSpace by (auto simp: list_all_iff)

lemma takeWhile_before:
  assumes "\<forall>c\<in>set a. p c" "\<not> p d"
  shows "takeWhile p (a @ d # r) = a"
  using assms by (induction a) auto

lemma amount_start_unique:
  assumes "is_currency_marker m" "list_all isSpace ws" "is_grouped_number num"
    and "is_currency_marker m'" "list_all isSpace ws'" "is_grouped_number num'"
    and "m @ ws @ num @ post = m' @ ws' @ num' @ post'"
  shows "num @ post = num' @ post'"
proof -
  from is_grouped_number_Cons [OF assms(3)] obtain d t where d: "num = d # t" "isDigit d" by blast
  from is_grouped_number_Cons [OF assms(6)] obtain d' t' where d': "num' = d' # t'" "isDigit d'" by blast
  have a: "\<forall>c\<in>set (m @ ws). \<not> isDigit c"
    using marker_no_digit [OF assms(1)] space_no_digit [OF assms(2)] by auto
  have a': "\<forall>c\<in>set (m' @ ws'). \<not> isDigit c"
    using marker_no_digit [OF assms(4)] space_no_digit [OF assms(5)] by auto
  have "takeWhile (\<lambda>c. \<not> isDigit c) ((m @ ws) @ d # (t @ post)) = m @ ws"
    by (rule takeWhile_before [OF a]) (simp add: d(2))
  moreover have "takeWhile (\<lambda>c. \<not> isDigit c) ((m' @ ws') @ d' # (t' @ post')) = m' @ ws'"
    by (rule takeWhile_before [OF a']) (simp add: d'(2))
  moreover from assms(7) d(1) d'(1)
  have "(m @ ws) @ d # (t @ post) = (m' @ ws') @ d' # (t' @ post')" by simp
  ultimately have e: "m @ ws = m' @ ws'" by simp
  have "(m @ ws) @ (num @ post) = m @ ws @ num @ post" by simp
  also have "\<dots> = m' @ ws' @ num' @ post'" by (rule assms(7))
  also have "\<dots> = (m' @ ws') @ (num' @ post')" by simp
  also have "\<dots> = (m @ ws) @ (num' @ post')" by (simp only: e)
  finally show ?thesis by (simp only: same_append_eq)
qed

lemma amount_match_at_matches:
  assumes i: "i \<le> length text"
  shows "(\<exists>num. amount_match_at text i num)
           \<longleftrightarrow> matches amount_pattern (pv, drop i text, None) \<noteq> []"
proof -
  have "(\<exists>num. amount_match_at text i num)
      \<longleftrightarrow> (\<exists>w s'. drop i text = w @ s' \<and> w \<in> lang amount_pattern)"
  proof
    assume "\<exists>num. amount_match_at text i num"
    then obtain num m ws post where a: "drop i text = m @ ws @ num @ post" "is_currency_marker m"
      "list_all isSpace ws" "is_grouped_number num" unfolding amount_match_at_def by blast
    hence "m @ ws @ num \<in> lang amount_pattern" unfolding in_lang_amount_pattern by blast
    moreover from a(1) have "drop i text = (m @ ws @ num) @ post" by simp
    ultimately show "\<exists>w s'. drop i text = w @ s' \<and> w \<in> lang amount_pattern" by blast
  next
    assume "\<exists>w s'. drop i text = w @ s' \<and> w \<in> lang amount_pattern"
    then obtain w s' where w: "drop i text = w @ s'" "w \<in> lang amount_pattern" by blast
    from w(2) obtain m ws num where b: "w = m @ ws @ num" "is_currency_marker m"
      "list_all isSpace ws" "is_grouped_number num" unfolding in_lang_amount_pattern by blast
    from w(1) b(1) have "drop i text = m @ ws @ num @ s'" by simp
    with b i have "amount_match_at text i num" unfolding amount_match_at_def by blast
    thus "\<exists>num. amount_match_at text i num" ..
  qed
  thus ?thesis by (simp only: matches_nonempty_iff [OF no_wordb_amount])
qed

lemma amount_search_None:
  assumes "match1 text amount_pattern = None"
  shows "\<not> (\<exists>i num. amount_match_at text i num)"
proof
  assume "\<exists>i num. amount_match_at text i num"
  then obtain i num where e: "amount_match_at text i num" by blast
  hence i: "i \<le> length text" by (simp add: amount_match_at_def)
  from e amount_match_at_matches [OF i, of "prevAt None (take i text)"]
  have ne: "matches amount_pattern (prevAt None (take i text), drop i text, None) \<noteq> []" by blast
  have "text = take i text @ drop i text" by simp
  with assms [unfolded match1_def search_None_iff] ne show False by blast
qed

lemma amount_search_Some:
  assumes "match1 text amount_pattern = Some v"
  shows "\<exists>i num. v = Str num \<and> first_amount_match text i num"
proof -
  from search_SomeD [OF assms [unfolded match1_def]] obtain pre s2 m ms where
    p: "text = pre @ s2" "matches amount_pattern (prevAt None pre, s2, None) = m # ms" "v = group1 m"
    and mn: "\<forall>pre' s3. text = pre' @ s3 \<and> length pre' < length pre
              \<longrightarrow> matches amount_pattern (prevAt None pre', s3, None) = []"
    by blast
  from amount_hd_capture [OF p(2)] obtain mk ws num post where
    c: "group1 m = Str num" "s2 = mk @ ws @ num @ post" "is_currency_marker mk" "list_all isSpace ws"
       "is_grouped_number num"
    and lg: "\<forall>num' post'. num @ post = num' @ post' \<and> is_grouped_number num'
                  \<longrightarrow> length num' \<le> length num" by blast
  from p(1) have d: "drop (length pre) text = s2" "length pre \<le> length text" by simp_all
  have am: "amount_match_at text (length pre) num"
    unfolding amount_match_at_def using c d by blast
  have first: "\<forall>j num'. amount_match_at text j num' \<longrightarrow> length pre \<le> j"
  proof (intro allI impI)
    fix j num' assume e: "amount_match_at text j num'"
    show "length pre \<le> j"
    proof (rule ccontr)
      assume "\<not> length pre \<le> j"
      hence lt: "j < length pre" by simp
      hence j: "j \<le> length text" using d(2) by simp
      from e amount_match_at_matches [OF j, of "prevAt None (take j text)"]
      have ne: "matches amount_pattern (prevAt None (take j text), drop j text, None) \<noteq> []" by blast
      have "text = take j text @ drop j text \<and> length (take j text) < length pre"
        using lt j by simp
      with mn ne show False by blast
    qed
  qed
  have longest: "\<forall>num'. amount_match_at text (length pre) num' \<longrightarrow> length num' \<le> length num"
  proof (intro allI impI)
    fix num' assume "amount_match_at text (length pre) num'"
    then obtain m' ws' post' where b: "s2 = m' @ ws' @ num' @ post'" "is_currency_marker m'"
      "list_all isSpace ws'" "is_grouped_number num'"
      unfolding amount_match_at_def d(1) by blast
    from c(2) b(1) have "mk @ ws @ num @ post = m' @ ws' @ num' @ post'" by simp
    from amount_start_unique [OF c(3,4,5) b(2,3,4) this] have "num @ post = num' @ post'" .
    with lg b(4) show "length num' \<le> length num" by blast
  qed
  from am first longest have "first_amount_match text (length pre) num"
    by (simp add: first_amount_match_def)
  with p(3) c(1) show ?thesis by auto
qed

lemma first_amount_match_unique:
  assumes "first_amount_match text i num" "first_amount_match text i' num'"
  shows "num' = num"
proof -
  from assms(1) have am: "amount_match_at text i num" by (simp add: first_amount_match_def)
  from assms(2) have am': "amount_match_at text i' num'" by (simp add: first_amount_match_def)
  have "i \<le> i'" using assms(1) am' unfolding first_amount_match_def by blast
  moreover have "i' \<le> i" using assms(2) am unfolding first_amount_match_def by blast
  ultimately have ii: "i' = i" by simp
  have "length num' \<le> length num" using assms(1) am' ii unfolding first_amount_match_def by blast
  moreover have "length num \<le> length num'" using assms(2) am ii unfolding first_amount_match_def by blast
  ultimately have l: "length num' = length num" by simp
  from am obtain m ws post where a: "drop i text = m @ ws @ num @ post" "is_currency_marker m"
    "list_all isSpace ws" "is_grouped_number num" unfolding amount_match_at_def by blast
  from am' ii obtain m' ws' post' where b: "drop i text = m' @ ws' @ num' @ post'"
    "is_currency_marker m'" "list_all isSpace ws'" "is_grouped_number num'"
    unfolding amount_match_at_def by blast
  from a(1) b(1) have "m @ ws @ num @ post = m' @ ws' @ num' @ post'" by simp
  from amount_start_unique [OF a(2,3,4) b(2,3,4) this] have "num @ post = num' @ post'" .
  with l show ?thesis by (simp add: append_eq_append_conv)
qed

lemma digits_no_comma: "list_all isDigit xs \<Longrightarrow> filter (\<lambda>c. c \<noteq> 0x2C) xs = xs"
  by (induction xs) (auto simp: isDigit_def)

lemma filter_comma_groups:
  "list_all is_digits gs \<Longrightarrow> filter (\<lambda>c. c \<noteq> 0x2C) (concat (map ((#) 0x2C) gs)) = concat gs"
  by (induction gs) (simp_all add: is_digits_def digits_no_comma)

lemma concat_digits: "list_all is_digits gs \<Longrightarrow> list_all isDigit (concat gs)"
  by (induction gs) (simp_all add: is_digits_def)

lemma grouped_filter_number:
  assumes "is_grouped_number num"
  shows "is_number (filter (\<lambda>c. c \<noteq> 0x2C) num)"
proof -
  from assms obtain g gs f where a: "is_digits g" "list_all is_digits gs"
    "f = [] \<or> (\<exists>fp. is_digits fp \<and> f = 0x2E # fp)" "num = g @ concat (map ((#) 0x2C) gs) @ f"
    unfolding is_grouped_number_def by blast
  from a(1,2) have ip: "is_digits (g @ concat gs)"
    by (simp add: is_digits_def concat_digits)
  have ff: "filter (\<lambda>c. c \<noteq> 0x2C) f = f"
    using a(3) by (auto simp: is_digits_def digits_no_comma)
  have "filter (\<lambda>c. c \<noteq> 0x2C) num = (g @ concat gs) @ f"
    using a(1,2) by (simp add: a(4) ff filter_comma_groups digits_no_comma is_digits_def)
  with ip a(3) show ?thesis unfolding is_number_def by auto
qed

text \<open>
  C6.  For every text \<open>extractKeyFields\<close> returns an object in which \<open>amount\<close> is
  absent exactly when the text contains no currency marker (the rupee sign, \<open>Rs\<close>,
  \<open>Rs.\<close> or \<open>INR\<close> in any letter case) followed, after white space or none, by a
  number with optional comma groups and an optional fraction.  Whenever there is such a
  match there is a first one (leftmost marker and, there, the longest number; that number
  is unique), and \<open>amount\<close> is the Number value of that number with all its commas
  removed: the binary64 number nearest to its decimal value, which is that decimal value
  itself whenever it is a binary64 number.
\<close>

theorem extractKeyFields_amount:
  "\<exists>ob. extractKeyFields text = Inr ob
     \<and> (ob ''amount'' = None \<longleftrightarrow> \<not> (\<exists>i num. amount_match_at text i num))
     \<and> ((\<exists>i num. amount_match_at text i num) \<longrightarrow> (\<exists>i num. first_amount_match text i num))
     \<and> (\<forall>i num. first_amount_match text i num
           \<longrightarrow> ob ''amount''
                 = Some (numberValue (decimal_value (filter (\<lambda>c. c \<noteq> 0x2C) num)))
               \<and> (is_binary64 (decimal_value (filter (\<lambda>c. c \<noteq> 0x2C) num))
                    \<longrightarrow> ob ''amount''
                          = Some (Num (decimal_value (filter (\<lambda>c. c \<noteq> 0x2C) num)))))"
proof (cases "match1 text amount_pattern")
  case None
  from amount_search_None [OF None] have n: "\<not> (\<exists>i num. amount_match_at text i num)" .
  hence "\<forall>i num. \<not> first_amount_match text i num" by (simp add: first_amount_match_def)
  moreover from None have "extracted_of text ''amount'' = None" by (simp add: extracted_of_def)
  ultimately show ?thesis using n by (simp add: extractKeyFields_eq)
next
  case (Some v)
  from amount_search_Some [OF Some] obtain i num where
    v: "v = Str num" and f: "first_amount_match text i num" by blast
  from f have am: "amount_match_at text i num" by (simp add: first_amount_match_def)
  hence "is_grouped_number num" by (auto simp: amount_match_at_def)
  hence "is_number (filter (\<lambda>c. c \<noteq> 0x2C) num)" by (rule grouped_filter_number)
  hence pf: "parseFloat (filter (\<lambda>c. c \<noteq> 0x2C) num)
              = numberValue (decimal_value (filter (\<lambda>c. c \<noteq> 0x2C) num))"
    by (rule parseFloat_number)
  from Some v pf have val: "extracted_of text ''amount''
      = Some (numberValue (decimal_value (filter (\<lambda>c. c \<noteq> 0x2C) num)))"
    by (simp add: extracted_of_def)
  have u: "\<forall>i' num'. first_amount_match text i' num'
             \<longrightarrow> extracted_of text ''amount''
                   = Some (numberValue (decimal_value (filter (\<lambda>c. c \<noteq> 0x2C) num')))
                 \<and> (is_binary64 (decimal_value (filter (\<lambda>c. c \<noteq> 0x2C) num'))
                      \<longrightarrow> extracted_of text ''amount''
                            = Some (Num (decimal_value (filter (\<lambda>c. c \<noteq> 0x2C) num'))))"
  proof (intro allI impI)
    fix i' num' assume "first_amount_match text i' num'"
    from first_amount_match_unique [OF f this] have "num' = num" .
    with val numberValue_exact [OF _ decimal_value_nonneg, of "filter (\<lambda>c. c \<noteq> 0x2C) num'"]
    show "extracted_of text ''amount''
            = Some (numberValue (decimal_value (filter (\<lambda>c. c \<noteq> 0x2C) num')))
          \<and> (is_binary64 (decimal_value (filter (\<lambda>c. c \<noteq> 0x2C) num'))
               \<longrightarrow> extracted_of text ''amount''
                     = Some (Num (decimal_value (filter (\<lambda>c. c \<noteq> 0x2C) num'))))"
      by simp
  qed
  have e: "\<exists>i num. amount_match_at text i num" using am by blast
  have fe: "\<exists>i num. first_amount_match text i num" using f by blast
  have a1: "extractKeyFields text = Inr (extracted_of text)" by (rule extractKeyFields_eq)
  have a2: "extracted_of text ''amount'' = None \<longleftrightarrow> \<not> (\<exists>i num. amount_match_at text i num)"
    using val e by simp
  have a3: "(\<exists>i num. amount_match_at text i num) \<longrightarrow> (\<exists>i num. first_amount_match text i num)"
    using fe by simp
  show ?thesis
    by (rule exI[of _ "extracted_of text"]) (intro conjI a1 a2 a3 u)
qed

theorem extractKeyFields_amount_witness:
  "(\<exists>ob. extractKeyFields amount_text = Inr ob \<and> ob ''amount'' = Some (Num 3250.5))
   \<and> (\<exists>i num. first_amount_match amount_text i num
         \<and> numberValue (decimal_value (filter (\<lambda>c. c \<noteq> 0x2C) num)) = Num 3250.5)"
proof -
  have ev: "extracted_of amount_text ''amount'' = Some (Num 3250.5)"
    by (simp add: amount_text_def extract_eval)
  obtain ob where h: "extractKeyFields amount_text = Inr ob
     \<and> (ob ''amount'' = None \<longleftrightarrow> \<not> (\<exists>i num. amount_match_at amount_text i num))
     \<and> ((\<exists>i num. amount_match_at amount_text i num) \<longrightarrow> (\<exists>i num. first_amount_match amount_text i num))
     \<and> (\<forall>i num. first_amount_match amount_text i num
           \<longrightarrow> ob ''amount''
                 = Some (numberValue (decimal_value (filter (\<lambda>c. c \<noteq> 0x2C) num)))
               \<and> (is_binary64 (decimal_value (filter (\<lambda>c. c \<noteq> 0x2C) num))
                    \<longrightarrow> ob ''amount''
                          = Some (Num (decimal_value (filter (\<lambda>c. c \<noteq> 0x2C) num)))))"
    using extractKeyFields_amount [of amount_text] by (rule exE) (rule that)
  from h have ob: "extractKeyFields amount_text = Inr ob" by (rule conjunct1)
  from h have iff: "ob ''amount'' = None \<longleftrightarrow> \<not> (\<exists>i num. amount_match_at amount_text i num)"
    by (elim conjE)
  from h have ex: "(\<exists>i num. amount_match_at amount_text i num)
      \<longrightarrow> (\<exists>i num. first_amount_match amount_text i num)"
    by (elim conjE)
  from h have val: "\<forall>i num. first_amount_match amount_text i num
           \<longrightarrow> ob ''amount''
                 = Some (numberValue (decimal_value (filter (\<lambda>c. c \<noteq> 0x2C) num)))
               \<and> (is_binary64 (decimal_value (filter (\<lambda>c. c \<noteq> 0x2C) num))
                    \<longrightarrow> ob ''amount''
                          = Some (Num (decimal_value (filter (\<lambda>c. c \<noteq> 0x2C) num))))"
    by (elim conjE)
  from ob have o: "ob = extracted_of amount_text" by (simp add: extractKeyFields_eq)
  with ev iff ex obtain i num where f: "first_amount_match amount_text i num" by auto
  with val o ev have "numberValue (decimal_value (filter (\<lambda>c. c \<noteq> 0x2C) num)) = Num 3250.5"
    by auto
  with f o ob ev show ?thesis by blast
qed

end
